theory Spec2Isabelle
  imports Main "HOL-Library.Char_ord" "HOL-Library.List_Lexorder" "HOL-Library.Multiset"
begin

section \<open>Cluster health check: the report, the checks and the operator graph\<close>

text \<open>
  A shallow embedding of \<^verbatim>\<open>pkg/health-check/cmd.go\<close>. Go strings are byte strings
  (\<^typ>\<open>string\<close>), slices are lists, a \<^verbatim>\<open>map[string]bool\<close> that only ever stores
  \<^verbatim>\<open>true\<close> is a set, and a \<^verbatim>\<open>map[string][]string\<close> is an association list read
  through \<^const>\<open>map_of\<close>. Counters are unbounded (\<^typ>\<open>nat\<close>, \<^typ>\<open>int\<close>): they
  count elements of lists held in memory and cannot reach the 64-bit limit.
\<close>

subsection \<open>Formatting\<close>

text \<open>\<^verbatim>\<open>%d\<close> of a non-negative integer.\<close>

fun decimal :: "nat \<Rightarrow> string" where
  "decimal n = (if n < 10 then [char_of (48 + n)] else decimal (n div 10) @ [char_of (48 + n mod 10)])"

declare decimal.simps [simp del]

text \<open>
  \<^verbatim>\<open>%q\<close> of a string: the text between double quotes, with a backslash before each
  double quote and each backslash. (The escapes Go writes for control and non-ASCII
  bytes are left out: operator and machine names are printable ASCII.)
\<close>

fun escape :: "string \<Rightarrow> string" where
  "escape [] = []"
| "escape (c # cs) =
     (if c = CHR 0x22 \<or> c = CHR 0x5C then CHR 0x5C # c # escape cs else c # escape cs)"

definition quote :: "string \<Rightarrow> string" where
  "quote s = CHR 0x22 # escape s @ [CHR 0x22]"

text \<open>\<^verbatim>\<open>strings.ToLower\<close> on ASCII letters.\<close>

definition lowerChar :: "char \<Rightarrow> char" where
  "lowerChar c = (if 65 \<le> (of_char c :: nat) \<and> (of_char c :: nat) \<le> 90 then char_of (of_char c + (32::nat)) else c)"

definition ToLower :: "string \<Rightarrow> string" where
  "ToLower s = map lowerChar s"

text \<open>
  \<^verbatim>\<open>strings.Join(xs, " ")\<close>.
\<close>

fun joinSpace :: "string list \<Rightarrow> string" where
  "joinSpace [] = []"
| "joinSpace [x] = x"
| "joinSpace (x # y # ys) = x @ '' '' @ joinSpace (y # ys)"

subsection \<open>The JUnit suite\<close>

record JUnitTestCase =
  Name :: string
  FailureOutput :: "string option"
  SkipMessage :: "string option"

record JUnitTestSuite =
  SuiteName :: string
  NumTests :: nat
  NumSkipped :: nat
  NumFailed :: nat
  TestCases :: "JUnitTestCase list"

definition tcAppend :: "JUnitTestSuite \<Rightarrow> string \<Rightarrow> string \<Rightarrow> string \<Rightarrow> JUnitTestSuite" where
  "tcAppend suite tcName tcFailureMsg tcSkipMsg =
     (if tcFailureMsg \<noteq> [] then
        suite\<lparr>NumFailed := NumFailed suite + 1,
              TestCases := TestCases suite @
                [\<lparr>Name = tcName, FailureOutput = Some tcFailureMsg, SkipMessage = None\<rparr>]\<rparr>
      else if tcSkipMsg \<noteq> [] then
        suite\<lparr>NumSkipped := NumSkipped suite + 1,
              TestCases := TestCases suite @
                [\<lparr>Name = tcName, FailureOutput = None, SkipMessage = Some tcSkipMsg\<rparr>]\<rparr>
      else
        suite\<lparr>TestCases := TestCases suite @
                [\<lparr>Name = tcName, FailureOutput = None, SkipMessage = None\<rparr>]\<rparr>)"

subsection \<open>Machines and nodes\<close>

text \<open>
  A machine record as the check reads it: its name and the string at
  \<^verbatim>\<open>status.phase\<close> (empty when absent). A node with the verdict of the external
  predicate \<^verbatim>\<open>e2enode.IsNodeSchedulable\<close>. A list call of the cluster client returns
  either an error (and then a nil list) or a list: \<^typ>\<open>string + 'a list\<close>, the error
  by its text.
\<close>

record Machine =
  MachineName :: string
  Phase :: string

record Node =
  NodeName :: string
  IsNodeSchedulable :: bool

definition isRunning :: "Machine \<Rightarrow> bool" where
  "isRunning machine = (ToLower (Phase machine) = ''running'')"

definition getUnreadyOrUnschedulableNodeNames :: "Node list \<Rightarrow> string list" where
  "getUnreadyOrUnschedulableNodeNames allNodes =
     map NodeName (filter (\<lambda>node. \<not> IsNodeSchedulable node) allNodes)"

definition machinesCase :: "(string + Machine list) \<Rightarrow> JUnitTestSuite \<Rightarrow> JUnitTestSuite" where
  "machinesCase machineList suite =
     (let tcName = ''all machines should be in Running state'';
          suite1 = (case machineList of
                      Inl err \<Rightarrow>
                        tcAppend suite tcName
                          (''Could not list machines: '' @ err @
                           ''. The Machine API might not be available.'') []
                    | Inr _ \<Rightarrow> suite);
          items = (case machineList of Inl _ \<Rightarrow> [] | Inr ms \<Rightarrow> ms);
          notRunningMachines =
            map (\<lambda>machine. ''Machine '' @ quote (MachineName machine) @ '' is in '' @
                            quote (Phase machine) @ '' state'')
                (filter (\<lambda>machine. \<not> isRunning machine) items)
      in if items \<noteq> [] then
           (if notRunningMachines = [] then tcAppend suite1 tcName [] []
            else tcAppend suite1 tcName
                   (''Found '' @ decimal (length notRunningMachines) @ '' out of '' @
                    decimal (length items) @ '' Machines not in Running state: '' @
                    joinSpace notRunningMachines) [])
         else tcAppend suite1 tcName []
                ''No Machines found or could not retrieve list. Skipping Machine check.'')"

definition nodesCases :: "Machine list \<Rightarrow> Node list \<Rightarrow> JUnitTestSuite \<Rightarrow> JUnitTestSuite" where
  "nodesCases items nodes suite =
     (let notReadyNodes = getUnreadyOrUnschedulableNodeNames nodes;
          suite1 =
            (if notReadyNodes = [] then tcAppend suite ''all nodes should be ready'' [] []
             else tcAppend suite ''all nodes should be ready''
                    (''Found '' @ decimal (length notReadyNodes) @ '' out of '' @
                     decimal (length nodes) @ '' Nodes not Ready or unscheduable: '' @
                     joinSpace notReadyNodes) []);
          tcName = ''node count should match or exceed machine count'';
          runningMachineCount = length (filter isRunning items);
          totalNodeCount = length nodes;
          readyNodeCount = int totalNodeCount - int (length notReadyNodes)
      in if readyNodeCount \<ge> int runningMachineCount then tcAppend suite1 tcName [] []
         else tcAppend suite1 tcName
                (''Ready and Scheduable Nodes count ('' @ decimal (nat readyNodeCount) @
                 '') is less than Running Machine count ('' @ decimal runningMachineCount @
                 ''): Ready and Scheduable Nodes:'' @
                 concat (map (\<lambda>node. '' '' @ NodeName node) (filter IsNodeSchedulable nodes)) @
                 ''; Running Machines:'' @
                 concat (map (\<lambda>machine. '' '' @ MachineName machine @ '' '')
                             (filter isRunning items))) [])"

definition checkMachineNodeConsistency ::
  "(string + Machine list) \<Rightarrow> (string + Node list) \<Rightarrow> JUnitTestSuite \<Rightarrow> JUnitTestSuite" where
  "checkMachineNodeConsistency machineList nodeList suite =
     (let suite1 = machinesCase machineList suite;
          items = (case machineList of Inl _ \<Rightarrow> [] | Inr ms \<Rightarrow> ms)
      in case nodeList of
           Inl err \<Rightarrow>
             tcAppend suite1 ''all nodes should be ready'' (''Failed to list nodes: '' @ err @ ''.'') []
         | Inr nodes \<Rightarrow> nodesCases items nodes suite1)"

subsection \<open>The report file\<close>

text \<open>
  A UTC instant by its calendar fields, and \<^verbatim>\<open>Format("20060102-150405")\<close>: the year
  on four digits, every other field on two.
\<close>

record UTC =
  year :: nat
  month :: nat
  day :: nat
  hour :: nat
  minute :: nat
  second :: nat

definition pad :: "nat \<Rightarrow> nat \<Rightarrow> string" where
  "pad w n = replicate (w - length (decimal n)) CHR ''0'' @ decimal n"

definition formatStamp :: "UTC \<Rightarrow> string" where
  "formatStamp t = pad 4 (year t) @ pad 2 (month t) @ pad 2 (day t) @ ''-'' @
                   pad 2 (hour t) @ pad 2 (minute t) @ pad 2 (second t)"

text \<open>
  The name of the report file, the last element that \<^verbatim>\<open>filepath.Join\<close> receives:
  \<^verbatim>\<open>timeSuffix\<close> is \<^verbatim>\<open>Sprintf("_%s", stamp)\<close> and the name is
  \<^verbatim>\<open>Sprintf("%s_%s.xml", filePrefix, timeSuffix)\<close>.
\<close>

definition reportFileName :: "UTC \<Rightarrow> string" where
  "reportFileName start =
     (let filePrefix = ''cluster-health-check'';
          timeSuffix = ''_'' @ formatStamp start
      in filePrefix @ ''_'' @ timeSuffix @ ''.xml'')"

text \<open>
  Where the report is written: nowhere when \<^verbatim>\<open>JUnitDir\<close> is empty, else the directory
  and the file name joined by \<^verbatim>\<open>filepath.Join\<close>.
\<close>

definition reportFile :: "string \<Rightarrow> UTC \<Rightarrow> (string \<times> string) option" where
  "reportFile JUnitDir start = (if JUnitDir \<noteq> [] then Some (JUnitDir, reportFileName start) else None)"

subsection \<open>The dependency table and its expansion\<close>

text \<open>
  A dependency table (\<^verbatim>\<open>map[string][]string\<close>) is an association list; the map it
  stands for is \<^const>\<open>map_of\<close> of it, and the order of its entries carries no meaning.
  Reading a key that is absent gives the nil slice.
\<close>

type_synonym depmap = "(string \<times> string list) list"

definition lookupDeps :: "depmap \<Rightarrow> string \<Rightarrow> string list" where
  "lookupDeps deps opName = (case map_of deps opName of None \<Rightarrow> [] | Some ds \<Rightarrow> ds)"

definition operatorDependencies :: depmap where
  "operatorDependencies =
     [(''etcd'', []),
      (''network'', [''etcd'']),
      (''kube-apiserver'', [''etcd'', ''network'']),
      (''kube-controller-manager'', [''kube-apiserver'']),
      (''kube-scheduler'', [''kube-apiserver'']),
      (''service-ca'', [''kube-apiserver'']),
      (''cloud-credential'', [''network'']),
      (''dns'', [''kube-apiserver'']),
      (''openshift-apiserver'', [''kube-apiserver'']),
      (''openshift-controller-manager'', [''openshift-apiserver'', ''kube-apiserver'']),
      (''cloud-controller-manager'', [''kube-apiserver'', ''cloud-credential'']),
      (''machine-api'', [''cloud-controller-manager'', ''cloud-credential'', ''kube-apiserver'']),
      (''machine-config'', [''kube-apiserver'', ''openshift-apiserver'', ''machine-api'']),
      (''ingress'', [''network'', ''machine-api'', ''cloud-credential'', ''dns'']),
      (''storage'', [''cloud-credential'', ''machine-api'']),
      (''image-registry'', [''ingress'', ''cloud-credential'']),
      (''authentication'', [''ingress'']),
      (''console'', [''authentication'', ''ingress'']),
      (''monitoring'', [''storage''])]"

text \<open>
  \<^verbatim>\<open>dfs\<close> with its two mutable sets passed along and returned; \<open>dfsEach\<close> is its
  loop over the direct dependencies of the current operator.
\<close>

function dfs :: "string \<Rightarrow> depmap \<Rightarrow> string set \<times> string set \<Rightarrow> string set \<times> string set"
  and dfsEach :: "string list \<Rightarrow> depmap \<Rightarrow> string set \<times> string set \<Rightarrow> string set \<times> string set"
where
  "dfs current deps (visited, resultSet) =
     (if current \<in> visited then (visited, resultSet)
      else (case map_of deps current of
              None \<Rightarrow> (insert current visited, resultSet)
            | Some directDeps \<Rightarrow> dfsEach directDeps deps (insert current visited, resultSet)))"
| "dfsEach [] deps st = st"
| "dfsEach (dep # rest) deps (visited, resultSet) =
     dfsEach rest deps (dfs dep deps (visited, insert dep resultSet))"
  by pat_completeness auto

lemma dfs_visited_grows_dom:
  "dfs_dfsEach_dom (Inl (current, deps, st)) \<Longrightarrow> fst st \<subseteq> fst (dfs current deps st)"
  "dfs_dfsEach_dom (Inr (ds, deps, st)) \<Longrightarrow> fst st \<subseteq> fst (dfsEach ds deps st)"
proof (induction current deps st and ds deps st rule: dfs_dfsEach.pinduct)
  case (1 current deps visited resultSet)
  then show ?case
    by (auto simp: dfs.psimps split: option.splits)
next
  case (2 deps st)
  then show ?case by (simp add: dfsEach.psimps)
next
  case (3 dep rest deps visited resultSet)
  obtain v1 r1 where st1: "dfs dep deps (visited, insert dep resultSet) = (v1, r1)"
    by (cases "dfs dep deps (visited, insert dep resultSet)")
  from 3 st1 have "visited \<subseteq> v1" and "v1 \<subseteq> fst (dfsEach rest deps (v1, r1))"
    by auto
  with 3(1) st1 show ?case
    by (simp add: dfsEach.psimps)
qed

termination dfs
proof (relation
    "inv_image (less_than <*lex*> less_than)
       (\<lambda>x. case x of
               Inl (current, deps, st) \<Rightarrow> (card (fst ` set deps - fst st), 0::nat)
             | Inr (ds, deps, st) \<Rightarrow> (card (fst ` set deps - fst st), Suc (length ds)))")
  show "wf (inv_image (less_than <*lex*> less_than)
       (\<lambda>x. case x of
               Inl (current, deps, st) \<Rightarrow> (card (fst ` set deps - fst st), 0::nat)
             | Inr (ds, deps, st) \<Rightarrow> (card (fst ` set deps - fst st), Suc (length ds))))"
    by (intro wf_inv_image wf_lex_prod wf_less_than)
next
  fix current :: string and deps :: depmap and visited resultSet :: "string set"
    and directDeps :: "string list"
  assume "current \<notin> visited" and "map_of deps current = Some directDeps"
  then have "current \<in> fst ` set deps - visited"
    by (auto dest: map_of_SomeD intro: rev_image_eqI)
  then have "card (fst ` set deps - insert current visited) < card (fst ` set deps - visited)"
    by (intro psubset_card_mono) auto
  then show "(Inr (directDeps, deps, insert current visited, resultSet),
              Inl (current, deps, visited, resultSet))
             \<in> inv_image (less_than <*lex*> less_than)
       (\<lambda>x. case x of
               Inl (current, deps, st) \<Rightarrow> (card (fst ` set deps - fst st), 0::nat)
             | Inr (ds, deps, st) \<Rightarrow> (card (fst ` set deps - fst st), Suc (length ds)))"
    by simp
next
  fix dep :: string and rest :: "string list" and deps :: depmap
    and visited resultSet :: "string set"
  show "(Inl (dep, deps, visited, insert dep resultSet),
         Inr (dep # rest, deps, visited, resultSet))
        \<in> inv_image (less_than <*lex*> less_than)
       (\<lambda>x. case x of
               Inl (current, deps, st) \<Rightarrow> (card (fst ` set deps - fst st), 0::nat)
             | Inr (ds, deps, st) \<Rightarrow> (card (fst ` set deps - fst st), Suc (length ds)))"
    by simp
next
  fix dep :: string and rest :: "string list" and deps :: depmap
    and visited resultSet :: "string set"
  assume "dfs_dfsEach_dom (Inl (dep, deps, visited, insert dep resultSet))"
  then have "visited \<subseteq> fst (dfs dep deps (visited, insert dep resultSet))"
    using dfs_visited_grows_dom(1) by fastforce
  then have "card (fst ` set deps - fst (dfs dep deps (visited, insert dep resultSet)))
             \<le> card (fst ` set deps - visited)"
    by (intro card_mono) auto
  then show "(Inr (rest, deps, dfs dep deps (visited, insert dep resultSet)),
              Inr (dep # rest, deps, visited, resultSet))
             \<in> inv_image (less_than <*lex*> less_than)
       (\<lambda>x. case x of
               Inl (current, deps, st) \<Rightarrow> (card (fst ` set deps - fst st), 0::nat)
             | Inr (ds, deps, st) \<Rightarrow> (card (fst ` set deps - fst st), Suc (length ds)))"
    by auto
qed

declare dfs.simps [simp del]

text \<open>
  The result set is read out in the map's unspecified order and then sorted, so what is
  returned is the sorted list of the set.
\<close>

definition getAllUpstreamDependencies :: "string \<Rightarrow> depmap \<Rightarrow> string list" where
  "getAllUpstreamDependencies opName deps = sorted_list_of_set (snd (dfs opName deps ({}, {})))"

text \<open>
  \<^verbatim>\<open>coreSet\<close>: every key of the table and every operator named in a value. The
  expanded table has one entry for each of them (a Go map: the order of the list below
  carries no meaning).
\<close>

definition coreSet :: "depmap \<Rightarrow> string list" where
  "coreSet manualDeps =
     remdups (map fst manualDeps @ concat (map (lookupDeps manualDeps) (map fst manualDeps)))"

definition expandDependencies :: "depmap \<Rightarrow> depmap" where
  "expandDependencies manualDeps =
     map (\<lambda>opName. (opName, if map_of manualDeps opName \<noteq> None
                             then getAllUpstreamDependencies opName manualDeps else []))
         (coreSet manualDeps)"

subsection \<open>The topological sort\<close>

fun stringInSlice :: "string \<Rightarrow> string list \<Rightarrow> bool" where
  "stringInSlice str [] = False"
| "stringInSlice str (s # slice) = (if s = str then True else stringInSlice str slice)"

text \<open>
  The in-degree table is a \<^verbatim>\<open>map[string]int\<close>; a key that is absent reads as 0, so
  the table is a total function. The first loop stores 0 for every operator, the second
  adds one for each entry of an operator's dependency list that is itself an operator.
\<close>

definition zeroInDegree :: "string list \<Rightarrow> (string \<Rightarrow> int)" where
  "zeroInDegree operators = fold (\<lambda>opName inDegree. inDegree(opName := 0)) operators (\<lambda>_. 0)"

definition countInDegree :: "string list \<Rightarrow> depmap \<Rightarrow> (string \<Rightarrow> int) \<Rightarrow> (string \<Rightarrow> int)" where
  "countInDegree operators dependencies inDegree0 =
     fold (\<lambda>opName inDegree1.
             fold (\<lambda>dep inDegree.
                     if stringInSlice dep operators
                     then inDegree(opName := inDegree opName + 1) else inDegree)
                  (lookupDeps dependencies opName) inDegree1)
          operators inDegree0"

text \<open>
  The inner loop of the main loop: after \<open>node\<close> is popped, every operator that lists
  it loses one in-degree and joins the queue when it reaches 0.
\<close>

fun reduceInDegree ::
  "string \<Rightarrow> depmap \<Rightarrow> string list \<Rightarrow> (string \<Rightarrow> int) \<times> string list \<Rightarrow> (string \<Rightarrow> int) \<times> string list"
where
  "reduceInDegree node dependencies [] st = st"
| "reduceInDegree node dependencies (opName # ops) (inDegree, queue) =
     (if stringInSlice node (lookupDeps dependencies opName) then
        (let inDegree' = inDegree(opName := inDegree opName - 1)
         in reduceInDegree node dependencies ops
              (inDegree', if inDegree' opName = 0 then queue @ [opName] else queue))
      else reduceInDegree node dependencies ops (inDegree, queue))"

lemma reduceInDegree_potential:
  "set ops \<subseteq> S \<Longrightarrow> finite S \<Longrightarrow>
   length (snd (reduceInDegree node deps ops (d, q))) +
     card {x \<in> S. 0 < fst (reduceInDegree node deps ops (d, q)) x}
   \<le> length q + card {x \<in> S. 0 < d x}"
proof (induction ops arbitrary: d q)
  case Nil
  then show ?case by simp
next
  case (Cons a ops)
  show ?case
  proof (cases "stringInSlice node (lookupDeps deps a)")
    case False
    with Cons show ?thesis by simp
  next
    case True
    let ?d1 = "d(a := d a - 1)"
    let ?q1 = "if ?d1 a = 0 then q @ [a] else q"
    have fin: "finite {x \<in> S. 0 < d x}" using Cons.prems by simp
    have step: "length ?q1 + card {x \<in> S. 0 < ?d1 x} \<le> length q + card {x \<in> S. 0 < d x}"
    proof (cases "d a = 1")
      case True
      have a_in: "a \<in> {x \<in> S. 0 < d x}" using True Cons.prems by simp
      have "{x \<in> S. 0 < ?d1 x} = {x \<in> S. 0 < d x} - {a}"
        using True by auto
      then have "card {x \<in> S. 0 < ?d1 x} = card {x \<in> S. 0 < d x} - 1"
        using a_in fin by simp
      moreover have "0 < card {x \<in> S. 0 < d x}"
        using a_in fin by (metis card_gt_0_iff empty_iff)
      ultimately show ?thesis using True by simp
    next
      case False
      have "{x \<in> S. 0 < ?d1 x} \<subseteq> {x \<in> S. 0 < d x}" by auto
      then have "card {x \<in> S. 0 < ?d1 x} \<le> card {x \<in> S. 0 < d x}"
        using fin by (rule card_mono[rotated])
      then show ?thesis using False by simp
    qed
    have "length (snd (reduceInDegree node deps ops (?d1, ?q1))) +
            card {x \<in> S. 0 < fst (reduceInDegree node deps ops (?d1, ?q1)) x}
          \<le> length ?q1 + card {x \<in> S. 0 < ?d1 x}"
      using Cons.prems by (intro Cons.IH) auto
    with step True show ?thesis by (simp add: Let_def)
  qed
qed

text \<open>The main loop: the queue is served from its front until it is empty.\<close>

function topoLoop ::
  "string list \<Rightarrow> depmap \<Rightarrow> (string \<Rightarrow> int) \<times> string list \<times> string list \<Rightarrow> string list"
where
  "topoLoop operators dependencies (inDegree, [], sortedOps) = sortedOps"
| "topoLoop operators dependencies (inDegree, node # queue, sortedOps) =
     (let st = reduceInDegree node dependencies operators (inDegree, queue)
      in topoLoop operators dependencies (fst st, snd st, sortedOps @ [node]))"
  by pat_completeness auto

termination topoLoop
proof (relation "measure (\<lambda>(operators, dependencies, inDegree, queue, sortedOps).
                    length queue + card {x \<in> set operators. 0 < inDegree x})")
  show "wf (measure (\<lambda>(operators, dependencies, inDegree, queue, sortedOps).
                    length queue + card {x \<in> set operators. (0::int) < inDegree x}))"
    by simp
next
  fix operators :: "string list" and dependencies :: depmap and inDegree :: "string \<Rightarrow> int"
    and node :: string and queue sortedOps :: "string list" and st
  assume "st = reduceInDegree node dependencies operators (inDegree, queue)"
  then show "((operators, dependencies, fst st, snd st, sortedOps @ [node]),
              (operators, dependencies, inDegree, node # queue, sortedOps))
             \<in> measure (\<lambda>(operators, dependencies, inDegree, queue, sortedOps).
                    length queue + card {x \<in> set operators. 0 < inDegree x})"
    using reduceInDegree_potential[of operators "set operators" node dependencies inDegree queue]
    by simp
qed

text \<open>
  The result is the error (with the nil slice) or the order: \<open>Inl\<close> carries the error's
  text and no order.
\<close>

definition TopologicalSort :: "string list \<Rightarrow> depmap \<Rightarrow> string + string list" where
  "TopologicalSort operators dependencies =
     (let inDegree = countInDegree operators dependencies (zeroInDegree operators);
          queue = filter (\<lambda>opName. inDegree opName = 0) operators;
          sortedOps = topoLoop operators dependencies (inDegree, queue, [])
      in if length sortedOps \<noteq> length operators then Inl ''dependency graph has a cycle''
         else Inr sortedOps)"

subsection \<open>Cluster operators and their evaluation\<close>

text \<open>
  An \<^verbatim>\<open>objx.Map\<close> holds JSON values under string keys; \<^verbatim>\<open>Get(k).String()\<close> is the
  string stored under \<open>k\<close>, and the empty string when \<open>k\<close> is absent or holds
  something else (also on the nil map). A cluster operator is read at two places only:
  its \<^verbatim>\<open>metadata.name\<close> and the list of objects under \<^verbatim>\<open>status.conditions\<close>.
\<close>

datatype jvalue = JString string | JOther

type_synonym objmap = "string \<rightharpoonup> jvalue"

definition getString :: "objmap \<Rightarrow> string \<Rightarrow> string" where
  "getString obj k = (case obj k of Some (JString s) \<Rightarrow> s | _ \<Rightarrow> [])"

record ClusterOperator =
  metadata_name :: string
  status_conditions :: "objmap list"

fun condition :: "objmap list \<Rightarrow> string \<Rightarrow> objmap" where
  "condition [] c = Map.empty"
| "condition (obj # objs) c = (if getString obj ''type'' = c then obj else condition objs c)"

text \<open>
  The loop that looks for a failed dependency and breaks at the first one: the skip
  message, or the empty string when no dependency has failed.
\<close>

fun preconditionSkipMsg :: "string list \<Rightarrow> string set \<Rightarrow> string" where
  "preconditionSkipMsg [] failedOperators = []"
| "preconditionSkipMsg (dep # deps) failedOperators =
     (if dep \<in> failedOperators then ''Precondition operator '' @ quote dep @ '' failed, skipping''
      else preconditionSkipMsg deps failedOperators)"

text \<open>
  One round of the stage-2 loop, on an entry of \<^verbatim>\<open>finalOperators\<close> (a name and the
  operator's record, \<open>None\<close> for the nil map), the suite and \<^verbatim>\<open>failedOperators\<close>.
\<close>

definition checkOperator ::
  "depmap \<Rightarrow> string \<times> ClusterOperator option \<Rightarrow> JUnitTestSuite \<times> string set \<Rightarrow> JUnitTestSuite \<times> string set"
where
  "checkOperator finalOperatorDependencies item st =
     (let suite = fst st; failedOperators = snd st;
          opName = fst item;
          tcName = ''operator conditions '' @ opName;
          skipMsg = (case snd item of
                       None \<Rightarrow> ''Operator '' @ quote opName @ '' not found in the cluster, skipping''
                     | Some _ \<Rightarrow>
                         preconditionSkipMsg (lookupDeps finalOperatorDependencies opName)
                           failedOperators)
      in if skipMsg \<noteq> [] then (tcAppend suite tcName [] skipMsg, failedOperators)
         else
           (let conds = (case snd item of None \<Rightarrow> [] | Some cop \<Rightarrow> status_conditions cop);
                available = getString (condition conds ''Available'') ''status'';
                degraded = getString (condition conds ''Degraded'') ''status'';
                progressing = getString (condition conds ''Progressing'') ''status''
            in if available = ''True'' \<and> degraded = ''False'' \<and> progressing = ''False''
               then (tcAppend suite tcName [] [], failedOperators)
               else (tcAppend suite tcName
                       (''Operator '' @ quote opName @ '' - Available='' @ available @
                        '', Degraded='' @ degraded @ '', Progressing='' @ progressing) [],
                     insert opName failedOperators)))"

fun checkOperators ::
  "depmap \<Rightarrow> (string \<times> ClusterOperator option) list \<Rightarrow> JUnitTestSuite \<times> string set \<Rightarrow> JUnitTestSuite \<times> string set"
where
  "checkOperators finalOperatorDependencies [] st = st"
| "checkOperators finalOperatorDependencies (item # items) st =
     checkOperators finalOperatorDependencies items (checkOperator finalOperatorDependencies item st)"

text \<open>
  Stage 1 consumes the core operators from \<^verbatim>\<open>operatorsMap\<close> in sorted order; what is
  left in the map is appended by a \<^verbatim>\<open>range\<close> over it. Go leaves the order of that
  iteration open: \<open>keyOrder\<close> is the order the runtime picks, each key once.
\<close>

definition buildOperatorsMap :: "ClusterOperator list \<Rightarrow> (string \<rightharpoonup> ClusterOperator)" where
  "buildOperatorsMap items = fold (\<lambda>item m. m(metadata_name item \<mapsto> item)) items Map.empty"

fun consumeCore ::
  "string list \<Rightarrow> (string \<rightharpoonup> ClusterOperator) \<Rightarrow>
   (string \<times> ClusterOperator option) list \<times> (string \<rightharpoonup> ClusterOperator)"
where
  "consumeCore [] operatorsMap = ([], operatorsMap)"
| "consumeCore (opName # rest) operatorsMap =
     (case operatorsMap opName of
        Some cop \<Rightarrow>
          (let r = consumeCore rest (operatorsMap(opName := None))
           in ((opName, Some cop) # fst r, snd r))
      | None \<Rightarrow>
          (let r = consumeCore rest operatorsMap
           in ((opName, None) # fst r, snd r)))"

definition rangeMap :: "string list \<Rightarrow> (string \<rightharpoonup> 'v) \<Rightarrow> (string \<times> 'v) list" where
  "rangeMap keyOrder m =
     concat (map (\<lambda>k. case m k of None \<Rightarrow> [] | Some v \<Rightarrow> [(k, v)]) (remdups keyOrder))"

text \<open>
  The operator part of \<^verbatim>\<open>Run\<close>, from the operator list to the end of stage 2, over a
  given dependency table: the error of the sort (the run then returns at once), or the
  suite and the set of failed operators.
\<close>

definition operatorStage ::
  "depmap \<Rightarrow> ClusterOperator list \<Rightarrow> string list \<Rightarrow> JUnitTestSuite \<Rightarrow>
   string + JUnitTestSuite \<times> string set"
where
  "operatorStage manualDeps items keyOrder suite =
     (let operatorsMap = buildOperatorsMap items;
          finalOperatorDependencies = expandDependencies manualDeps;
          coreOperators = sort (map fst finalOperatorDependencies)
      in case TopologicalSort coreOperators finalOperatorDependencies of
           Inl err \<Rightarrow> Inl err
         | Inr sortedCoreOperators \<Rightarrow>
             (let r = consumeCore sortedCoreOperators operatorsMap;
                  finalOperators =
                    fst r @ map (\<lambda>(opName, cop). (opName, Some cop)) (rangeMap keyOrder (snd r))
              in Inr (checkOperators finalOperatorDependencies finalOperators (suite, {}))))"

text \<open>The suite \<^verbatim>\<open>Run\<close> starts from.\<close>

definition newSuite :: JUnitTestSuite where
  "newSuite = \<lparr>SuiteName = ''Cluster Health Check'', NumTests = 0, NumSkipped = 0, NumFailed = 0, TestCases = []\<rparr>"

text \<open>
  \<^verbatim>\<open>Run\<close> after the clients are built: the three list calls, the clock and the
  iteration order are its inputs. It gives \<open>None\<close> when it returns before printing
  anything, else the suite it prints and the file it writes (if any).
\<close>

definition RunWith ::
  "depmap \<Rightarrow> string \<Rightarrow> (string + Machine list) \<Rightarrow> (string + Node list) \<Rightarrow>
   (string + ClusterOperator list) \<Rightarrow> string list \<Rightarrow> UTC \<Rightarrow>
   (JUnitTestSuite \<times> (string \<times> string) option) option"
where
  "RunWith manualDeps JUnitDir machineList nodeList clusterOperators keyOrder start =
     (let suite1 = checkMachineNodeConsistency machineList nodeList newSuite
      in case clusterOperators of
           Inl err \<Rightarrow> None
         | Inr items \<Rightarrow>
             (case operatorStage manualDeps items keyOrder suite1 of
                Inl err \<Rightarrow> None
              | Inr (suite2, failedOperators) \<Rightarrow>
                  Some (suite2\<lparr>NumTests := length (TestCases suite2)\<rparr>,
                        reportFile JUnitDir start)))"

definition Run ::
  "string \<Rightarrow> (string + Machine list) \<Rightarrow> (string + Node list) \<Rightarrow>
   (string + ClusterOperator list) \<Rightarrow> string list \<Rightarrow> UTC \<Rightarrow>
   (JUnitTestSuite \<times> (string \<times> string) option) option"
where
  "Run = RunWith operatorDependencies"

section \<open>Notions used in the statements\<close>

text \<open>
  The direct dependency relation of a table: \<open>(a, b)\<close> when \<open>b\<close> is in the list stored
  for \<open>a\<close>. Its transitive closure is "depends on, directly or through a chain".
\<close>

definition dependsOn :: "depmap \<Rightarrow> (string \<times> string) set" where
  "dependsOn deps = {(a, b). b \<in> set (lookupDeps deps a)}"

text \<open>
  The position of the first occurrence of an element in a list, and the dependency
  relation of a table between the members of an operator list.
\<close>

fun indexOf :: "'a \<Rightarrow> 'a list \<Rightarrow> nat" where
  "indexOf x [] = 0"
| "indexOf x (y # ys) = (if x = y then 0 else Suc (indexOf x ys))"

definition restrictedDeps :: "string list \<Rightarrow> depmap \<Rightarrow> (string \<times> string) set" where
  "restrictedDeps operators dependencies =
     {(a, b). a \<in> set operators \<and> b \<in> set operators \<and> b \<in> set (lookupDeps dependencies a)}"

text \<open>
  How a test case reads: Failed when it carries a failure output, else Skipped when it
  carries a skip message, else Passed. The status string the evaluation reads for a
  condition type.
\<close>

datatype outcome = Passed | Failed string | Skipped string

definition outcomeOf :: "JUnitTestCase \<Rightarrow> outcome" where
  "outcomeOf tc = (case FailureOutput tc of
                     Some msg \<Rightarrow> Failed msg
                   | None \<Rightarrow> (case SkipMessage tc of Some msg \<Rightarrow> Skipped msg | None \<Rightarrow> Passed))"

definition conditionStatus :: "ClusterOperator \<Rightarrow> string \<Rightarrow> string" where
  "conditionStatus cop c = getString (condition (status_conditions cop) c) ''status''"

text \<open>
  For the loop of the sort: the number of entries of an operator's dependency list that
  are operators, the order property of a prefix of the result, and the loop invariant
  (in-degrees are the initial counts minus the dependencies already placed; exactly the
  operators whose in-degree has reached 0 are placed or queued).
\<close>

definition inOps :: "string list \<Rightarrow> depmap \<Rightarrow> string \<Rightarrow> int" where
  "inOps operators dependencies x =
     int (length (filter (\<lambda>dep. dep \<in> set operators) (lookupDeps dependencies x)))"

definition ordered :: "string list \<Rightarrow> depmap \<Rightarrow> string list \<Rightarrow> bool" where
  "ordered operators dependencies s \<longleftrightarrow>
     (\<forall>i < length s. \<forall>b \<in> set (lookupDeps dependencies (s ! i)).
        b \<in> set operators \<longrightarrow> b \<in> set (take i s))"

definition topoInv :: "string list \<Rightarrow> depmap \<Rightarrow> (string \<Rightarrow> int) \<Rightarrow> string list \<Rightarrow> string list \<Rightarrow> bool" where
  "topoInv operators dependencies d q s \<longleftrightarrow>
     distinct (s @ q) \<and> set (s @ q) \<subseteq> set operators \<and>
     (\<forall>x \<in> set operators.
        d x = inOps operators dependencies x - int (card (set s \<inter> set (lookupDeps dependencies x)))) \<and>
     (\<forall>x \<in> set operators. x \<in> set (s @ q) \<longleftrightarrow> d x \<le> 0) \<and>
     ordered operators dependencies s"

text \<open>
  The test cases a stage appended to a suite, and the list \<^verbatim>\<open>finalOperators\<close> that
  stage 1 builds from a sorted core list, the operator map and an iteration order.
\<close>

definition newCases :: "JUnitTestSuite \<Rightarrow> JUnitTestSuite \<Rightarrow> JUnitTestCase list" where
  "newCases suite suite' = drop (length (TestCases suite)) (TestCases suite')"

definition finalOperatorsOf ::
  "string list \<Rightarrow> (string \<rightharpoonup> ClusterOperator) \<Rightarrow> string list \<Rightarrow> (string \<times> ClusterOperator option) list" where
  "finalOperatorsOf sortedCoreOperators operatorsMap keyOrder =
     fst (consumeCore sortedCoreOperators operatorsMap) @
     map (\<lambda>(opName, cop). (opName, Some cop))
         (rangeMap keyOrder (snd (consumeCore sortedCoreOperators operatorsMap)))"

text \<open>
  Examples for the witnesses: an operator with its three conditions, and the chain in
  which \<open>C\<close> depends on \<open>B\<close> and \<open>B\<close> on \<open>A\<close>.
\<close>

definition exampleOperator :: "string \<Rightarrow> string \<Rightarrow> string \<Rightarrow> string \<Rightarrow> ClusterOperator" where
  "exampleOperator name available degraded progressing =
     \<lparr>metadata_name = name,
      status_conditions =
        [[''type'' \<mapsto> JString ''Available'', ''status'' \<mapsto> JString available],
         [''type'' \<mapsto> JString ''Degraded'', ''status'' \<mapsto> JString degraded],
         [''type'' \<mapsto> JString ''Progressing'', ''status'' \<mapsto> JString progressing]]\<rparr>"

definition chainABC :: depmap where
  "chainABC = [(''A'', []), (''B'', [''A'']), (''C'', [''B''])]"

definition cycleAB :: depmap where
  "cycleAB = [(''A'', [''B'']), (''B'', [''A''])]"

definition forkABC :: depmap where
  "forkABC = [(''A'', []), (''B'', []), (''C'', [''B'', ''A''])]"

section \<open>Properties\<close>

lemma TestCases_tcAppend:
  "TestCases (tcAppend suite n f s) = TestCases suite @
     [\<lparr>Name = n, FailureOutput = (if f \<noteq> [] then Some f else None),
       SkipMessage = (if f = [] \<and> s \<noteq> [] then Some s else None)\<rparr>]"
  by (simp add: tcAppend_def)

subsection \<open>The depth-first traversal and the expansion\<close>

lemma dfs_complete_inv:
  "fst st \<subseteq> fst (dfs current deps st) \<and> snd st \<subseteq> snd (dfs current deps st) \<and>
   current \<in> fst (dfs current deps st) \<and>
   (\<forall>x \<in> fst (dfs current deps st) - fst st.
      set (lookupDeps deps x) \<subseteq> fst (dfs current deps st) \<inter> snd (dfs current deps st))"
  "fst st \<subseteq> fst (dfsEach ds deps st) \<and> snd st \<subseteq> snd (dfsEach ds deps st) \<and>
   set ds \<subseteq> fst (dfsEach ds deps st) \<inter> snd (dfsEach ds deps st) \<and>
   (\<forall>x \<in> fst (dfsEach ds deps st) - fst st.
      set (lookupDeps deps x) \<subseteq> fst (dfsEach ds deps st) \<inter> snd (dfsEach ds deps st))"
proof (induction current deps st and ds deps st rule: dfs_dfsEach.induct)
  case (1 current deps visited resultSet)
  show ?case
  proof (cases "current \<in> visited")
    case True
    then show ?thesis by (simp add: dfs.simps)
  next
    case notin: False
    show ?thesis
    proof (cases "map_of deps current")
      case None
      with notin show ?thesis by (auto simp: lookupDeps_def dfs.simps)
    next
      case (Some directDeps)
      let ?r = "dfsEach directDeps deps (insert current visited, resultSet)"
      have eq: "dfs current deps (visited, resultSet) = ?r"
        using notin Some by (simp add: dfs.simps)
      have ih: "insert current visited \<subseteq> fst ?r" "resultSet \<subseteq> snd ?r"
        "set directDeps \<subseteq> fst ?r \<inter> snd ?r"
        "\<forall>x \<in> fst ?r - insert current visited. set (lookupDeps deps x) \<subseteq> fst ?r \<inter> snd ?r"
        using "1.IH"[OF notin Some] by auto
      have cur: "set (lookupDeps deps current) = set directDeps"
        using Some by (simp add: lookupDeps_def)
      have new: "\<forall>x \<in> fst ?r - visited. set (lookupDeps deps x) \<subseteq> fst ?r \<inter> snd ?r"
      proof
        fix x assume x: "x \<in> fst ?r - visited"
        show "set (lookupDeps deps x) \<subseteq> fst ?r \<inter> snd ?r"
        proof (cases "x = current")
          case True
          with cur ih(3) show ?thesis by simp
        next
          case False
          with x ih(4) show ?thesis by blast
        qed
      qed
      have "visited \<subseteq> fst ?r" "current \<in> fst ?r" using ih(1) by auto
      with ih(2) new show ?thesis
        unfolding eq by simp
    qed
  qed
next
  case (2 deps st)
  then show ?case by simp
next
  case (3 dep rest deps visited resultSet)
  let ?s1 = "dfs dep deps (visited, insert dep resultSet)"
  let ?s2 = "dfsEach rest deps ?s1"
  have eq: "dfsEach (dep # rest) deps (visited, resultSet) = ?s2" by simp
  have a: "visited \<subseteq> fst ?s1" "insert dep resultSet \<subseteq> snd ?s1" "dep \<in> fst ?s1"
    "\<forall>x \<in> fst ?s1 - visited. set (lookupDeps deps x) \<subseteq> fst ?s1 \<inter> snd ?s1"
    using "3.IH"(1) by auto
  have b: "fst ?s1 \<subseteq> fst ?s2" "snd ?s1 \<subseteq> snd ?s2" "set rest \<subseteq> fst ?s2 \<inter> snd ?s2"
    "\<forall>x \<in> fst ?s2 - fst ?s1. set (lookupDeps deps x) \<subseteq> fst ?s2 \<inter> snd ?s2"
    using "3.IH"(2) by auto
  have c: "\<forall>x \<in> fst ?s2 - visited. set (lookupDeps deps x) \<subseteq> fst ?s2 \<inter> snd ?s2"
  proof
    fix x assume x: "x \<in> fst ?s2 - visited"
    show "set (lookupDeps deps x) \<subseteq> fst ?s2 \<inter> snd ?s2"
    proof (cases "x \<in> fst ?s1")
      case True
      with x a(4) have "set (lookupDeps deps x) \<subseteq> fst ?s1 \<inter> snd ?s1" by auto
      with b(1,2) show ?thesis by blast
    next
      case False
      with x b(4) show ?thesis by auto
    qed
  qed
  show ?case
    unfolding eq using a b c by auto
qed

lemma dfs_sound_inv:
  "snd (dfs current deps st) \<subseteq> snd st \<union> {b. (current, b) \<in> (dependsOn deps)\<^sup>+}"
  "snd (dfsEach ds deps st) \<subseteq> snd st \<union> set ds \<union> {b. \<exists>d \<in> set ds. (d, b) \<in> (dependsOn deps)\<^sup>+}"
proof (induction current deps st and ds deps st rule: dfs_dfsEach.induct)
  case (1 current deps visited resultSet)
  show ?case
  proof (cases "current \<in> visited")
    case True
    then show ?thesis by (simp add: dfs.simps)
  next
    case notin: False
    show ?thesis
    proof (cases "map_of deps current")
      case None
      with notin show ?thesis by (simp add: dfs.simps)
    next
      case (Some directDeps)
      have edge: "\<And>d. d \<in> set directDeps \<Longrightarrow> (current, d) \<in> dependsOn deps"
        using Some by (simp add: dependsOn_def lookupDeps_def)
      have "snd (dfsEach directDeps deps (insert current visited, resultSet))
            \<subseteq> resultSet \<union> set directDeps \<union> {b. \<exists>d \<in> set directDeps. (d, b) \<in> (dependsOn deps)\<^sup>+}"
        using "1.IH"[OF notin Some] by simp
      also have "\<dots> \<subseteq> resultSet \<union> {b. (current, b) \<in> (dependsOn deps)\<^sup>+}"
        using edge by (auto intro: trancl_into_trancl2)
      finally show ?thesis using notin Some by (simp add: dfs.simps)
    qed
  qed
next
  case (2 deps st)
  then show ?case by simp
next
  case (3 dep rest deps visited resultSet)
  let ?s1 = "dfs dep deps (visited, insert dep resultSet)"
  have a: "snd ?s1 \<subseteq> insert dep resultSet \<union> {b. (dep, b) \<in> (dependsOn deps)\<^sup>+}"
    using "3.IH"(1) by simp
  have b: "snd (dfsEach rest deps ?s1) \<subseteq> snd ?s1 \<union> set rest \<union> {b. \<exists>d \<in> set rest. (d, b) \<in> (dependsOn deps)\<^sup>+}"
    using "3.IH"(2) by simp
  show ?case
    using a b by auto
qed

lemma closed_reach:
  assumes cl: "\<forall>x \<in> V. set (lookupDeps deps x) \<subseteq> V \<inter> R" and "(a, b) \<in> (dependsOn deps)\<^sup>+" and "a \<in> V"
  shows "b \<in> V \<inter> R"
  using assms(2,3)
proof (induction rule: trancl_induct)
  case (base y)
  then show ?case using cl by (auto simp: dependsOn_def)
next
  case (step y z)
  then have "y \<in> V" by simp
  with step(2) cl show ?case by (auto simp: dependsOn_def)
qed

lemma dfs_result:
  "snd (dfs opName deps ({}, {})) = {b. (opName, b) \<in> (dependsOn deps)\<^sup>+}"
proof
  show "snd (dfs opName deps ({}, {})) \<subseteq> {b. (opName, b) \<in> (dependsOn deps)\<^sup>+}"
    using dfs_sound_inv(1)[of opName deps "({}, {})"] by simp
next
  let ?r = "dfs opName deps ({}, {})"
  have inv: "opName \<in> fst ?r" "\<forall>x \<in> fst ?r. set (lookupDeps deps x) \<subseteq> fst ?r \<inter> snd ?r"
    using dfs_complete_inv(1)[of "({}, {})" opName deps] by auto
  show "{b. (opName, b) \<in> (dependsOn deps)\<^sup>+} \<subseteq> snd ?r"
    using closed_reach[OF inv(2) _ inv(1)] by auto
qed

lemma finite_reach: "finite {b. (a, b) \<in> (dependsOn deps)\<^sup>+}"
proof -
  have "{b. (a, b) \<in> (dependsOn deps)\<^sup>+} \<subseteq> \<Union> (set ` snd ` set deps)"
  proof
    fix b assume "b \<in> {b. (a, b) \<in> (dependsOn deps)\<^sup>+}"
    then have "(a, b) \<in> (dependsOn deps)\<^sup>+" by simp
    then obtain y where "(y, b) \<in> dependsOn deps" by (meson tranclE)
    then obtain ds where "map_of deps y = Some ds" "b \<in> set ds"
      by (cases "map_of deps y") (auto simp: dependsOn_def lookupDeps_def)
    then have "(y, ds) \<in> set deps" "b \<in> set ds" by (auto dest: map_of_SomeD)
    then show "b \<in> \<Union> (set ` snd ` set deps)"
      by force
  qed
  then show ?thesis by (rule finite_subset) simp
qed

lemma set_getAllUpstreamDependencies:
  "set (getAllUpstreamDependencies opName deps) = {b. (opName, b) \<in> (dependsOn deps)\<^sup>+}"
  by (simp add: getAllUpstreamDependencies_def dfs_result finite_reach)

lemma distinct_coreSet: "distinct (coreSet m)"
  by (simp add: coreSet_def)

lemma lookupDeps_in_ran:
  "map_of m k = Some ds \<Longrightarrow> lookupDeps m k = ds"
  by (simp add: lookupDeps_def)

lemma set_coreSet:
  "set (coreSet m) = dom (map_of m) \<union> \<Union> (set ` ran (map_of m))"
proof -
  have "(\<Union>k \<in> fst ` set m. set (lookupDeps m k)) = \<Union> (set ` ran (map_of m))"
  proof (intro equalityI subsetI)
    fix x assume "x \<in> (\<Union>k \<in> fst ` set m. set (lookupDeps m k))"
    then obtain k where "x \<in> set (lookupDeps m k)" by auto
    then obtain ds where "map_of m k = Some ds" "x \<in> set ds"
      by (cases "map_of m k") (auto simp: lookupDeps_def)
    then show "x \<in> \<Union> (set ` ran (map_of m))" by (auto simp: ran_def)
  next
    fix x assume "x \<in> \<Union> (set ` ran (map_of m))"
    then obtain k ds where kd: "map_of m k = Some ds" "x \<in> set ds" by (auto simp: ran_def)
    then have "k \<in> fst ` set m" by (auto dest: map_of_SomeD intro: rev_image_eqI)
    moreover have "x \<in> set (lookupDeps m k)" using kd by (simp add: lookupDeps_def)
    ultimately show "x \<in> (\<Union>k \<in> fst ` set m. set (lookupDeps m k))"
      by blast
  qed
  then show ?thesis
    by (simp add: coreSet_def dom_map_of_conv_image_fst)
qed

lemma map_of_expandDependencies:
  "map_of (expandDependencies m) k =
     (if k \<in> set (coreSet m)
      then Some (if map_of m k \<noteq> None then getAllUpstreamDependencies k m else [])
      else None)"
proof -
  have "map_of (map (\<lambda>x. (x, f x)) xs) k = (if k \<in> set xs then Some (f k) else None)"
    for f :: "string \<Rightarrow> string list" and xs
    by (induction xs) auto
  then show ?thesis by (simp add: expandDependencies_def)
qed

lemma keys_expandDependencies: "map fst (expandDependencies m) = coreSet m"
  by (simp add: expandDependencies_def comp_def)

lemma no_deps_without_key:
  assumes "map_of m k = None"
  shows "{b. (k, b) \<in> (dependsOn m)\<^sup>+} = {}"
proof -
  have "(k, b) \<notin> (dependsOn m)\<^sup>+" for b
  proof
    assume "(k, b) \<in> (dependsOn m)\<^sup>+"
    then obtain y where "(k, y) \<in> dependsOn m" by (meson converse_tranclE)
    with assms show False by (simp add: dependsOn_def lookupDeps_def)
  qed
  then show ?thesis by auto
qed

lemma set_lookup_expandDependencies:
  "set (lookupDeps (expandDependencies m) k) = {b. (k, b) \<in> (dependsOn m)\<^sup>+}"
proof (cases "map_of m k")
  case None
  then show ?thesis
    by (simp add: lookupDeps_def map_of_expandDependencies no_deps_without_key)
next
  case (Some ds)
  then have "k \<in> set (coreSet m)" by (auto simp: set_coreSet)
  with Some show ?thesis
    by (simp add: lookupDeps_def map_of_expandDependencies set_getAllUpstreamDependencies)
qed

lemma sorted_lookup_expandDependencies:
  "sorted (lookupDeps (expandDependencies m) k) \<and> distinct (lookupDeps (expandDependencies m) k)"
  by (simp add: lookupDeps_def map_of_expandDependencies getAllUpstreamDependencies_def)

lemma dependsOn_in_coreSet:
  assumes "(a, b) \<in> (dependsOn m)\<^sup>+"
  shows "a \<in> dom (map_of m) \<and> b \<in> set (coreSet m)"
proof -
  obtain y where "(a, y) \<in> dependsOn m" using assms by (meson converse_tranclE)
  then have a: "a \<in> dom (map_of m)"
    by (cases "map_of m a") (auto simp: dependsOn_def lookupDeps_def)
  obtain z where "(z, b) \<in> dependsOn m" using assms by (meson tranclE)
  then obtain ds where "map_of m z = Some ds" "b \<in> set ds"
    by (cases "map_of m z") (auto simp: dependsOn_def lookupDeps_def)
  then have "b \<in> \<Union> (set ` ran (map_of m))" by (auto simp: ran_def)
  with a show ?thesis by (simp add: set_coreSet)
qed

text \<open>
  C4. Closure correctness: when \<open>A\<close> depends on \<open>B\<close>, directly or through a chain of
  direct dependencies of the table, the expanded table has an entry for \<open>A\<close> and
  \<open>B\<close> is in it.
\<close>

theorem expandDependencies_closure:
  assumes "(A, B) \<in> (dependsOn manualDeps)\<^sup>+"
  shows "\<exists>ds. map_of (expandDependencies manualDeps) A = Some ds \<and> B \<in> set ds"
proof -
  have "A \<in> dom (map_of manualDeps)" using dependsOn_in_coreSet[OF assms] by simp
  then have "A \<in> set (coreSet manualDeps)" by (simp add: set_coreSet)
  then obtain ds where ds: "map_of (expandDependencies manualDeps) A = Some ds"
    by (simp add: map_of_expandDependencies)
  then have "lookupDeps (expandDependencies manualDeps) A = ds" by (simp add: lookupDeps_def)
  with assms set_lookup_expandDependencies[of manualDeps A] ds show ?thesis by auto
qed

theorem expandDependencies_closure_witness:
  "(''A'', ''C'') \<in> (dependsOn [(''A'', [''B'']), (''B'', [''C''])])\<^sup>+ \<and>
   (\<exists>ds. map_of (expandDependencies [(''A'', [''B'']), (''B'', [''C''])]) ''A'' = Some ds \<and>
         ''C'' \<in> set ds)"
proof -
  have "(''A'', ''B'') \<in> dependsOn [(''A'', [''B'']), (''B'', [''C''])]"
    and "(''B'', ''C'') \<in> dependsOn [(''A'', [''B'']), (''B'', [''C''])]"
    by (simp_all add: dependsOn_def lookupDeps_def)
  then have h: "(''A'', ''C'') \<in> (dependsOn [(''A'', [''B'']), (''B'', [''C''])])\<^sup>+"
    by (meson trancl.r_into_trancl trancl_into_trancl)
  show ?thesis using h expandDependencies_closure[OF h] by simp
qed

text \<open>
  C5. The keys of the expanded table are the keys of the input together with every
  operator named in one of its values, and an operator that is named in a value but is
  not a key is mapped to the empty list.
\<close>

theorem expandDependencies_domain:
  "dom (map_of (expandDependencies manualDeps)) =
     dom (map_of manualDeps) \<union> \<Union> (set ` ran (map_of manualDeps)) \<and>
   (\<forall>opName \<in> \<Union> (set ` ran (map_of manualDeps)) - dom (map_of manualDeps).
      map_of (expandDependencies manualDeps) opName = Some [])"
proof -
  have "dom (map_of (expandDependencies manualDeps)) = set (coreSet manualDeps)"
    by (auto simp: map_of_expandDependencies dom_def)
  then show ?thesis
    by (auto simp: set_coreSet map_of_expandDependencies)
qed

theorem expandDependencies_domain_witness:
  "''B'' \<in> \<Union> (set ` ran (map_of [(''A'', [''B'', ''C''])])) - dom (map_of [(''A'', [''B'', ''C''])]) \<and>
   map_of (expandDependencies [(''A'', [''B'', ''C''])]) ''B'' = Some [] \<and>
   dom (map_of (expandDependencies [(''A'', [''B'', ''C''])])) = {''A'', ''B'', ''C''}"
proof -
  have h: "''B'' \<in> \<Union> (set ` ran (map_of [(''A'', [''B'', ''C''])])) - dom (map_of [(''A'', [''B'', ''C''])])"
    by simp
  have d: "dom (map_of [(''A'', [''B'', ''C''])]) \<union> \<Union> (set ` ran (map_of [(''A'', [''B'', ''C''])]))
           = {''A'', ''B'', ''C''}"
    by auto
  show ?thesis using h d expandDependencies_domain[of "[(''A'', [''B'', ''C''])]"] by simp
qed

subsection \<open>The topological sort\<close>

lemma stringInSlice_iff: "stringInSlice str slice \<longleftrightarrow> str \<in> set slice"
  by (induction slice) auto

lemma zeroInDegree_eq: "zeroInDegree operators = (\<lambda>_. 0)"
proof -
  have "fold (\<lambda>opName inDegree. inDegree(opName := 0)) xs d = (\<lambda>x. if x \<in> set xs then (0::int) else d x)"
    for xs :: "string list" and d
    by (induction xs arbitrary: d) (auto simp: fun_eq_iff)
  then show ?thesis by (simp add: zeroInDegree_def fun_eq_iff)
qed

lemma count_inner:
  "fold (\<lambda>dep inDegree. if P dep then inDegree(x := inDegree x + 1) else inDegree) ds d =
   d(x := d x + int (length (filter P ds)))"
  by (induction ds arbitrary: d) (auto simp: fun_eq_iff)

lemma count_outer:
  "distinct xs \<Longrightarrow>
   fold (\<lambda>opName inDegree1.
           fold (\<lambda>dep inDegree.
                   if stringInSlice dep operators
                   then inDegree(opName := inDegree opName + 1) else inDegree)
                (lookupDeps dependencies opName) inDegree1) xs d =
   (\<lambda>x. d x + (if x \<in> set xs then inOps operators dependencies x else 0))"
proof (induction xs arbitrary: d)
  case Nil
  then show ?case by simp
next
  case (Cons a xs)
  then show ?case
    by (simp add: count_inner stringInSlice_iff inOps_def fun_eq_iff)
qed

lemma countInDegree_eq:
  "distinct operators \<Longrightarrow>
   countInDegree operators dependencies (zeroInDegree operators) =
   (\<lambda>x. if x \<in> set operators then inOps operators dependencies x else 0)"
  by (simp add: countInDegree_def zeroInDegree_eq count_outer)

lemma reduceInDegree_eq:
  "distinct xs \<Longrightarrow>
   reduceInDegree node deps xs (d, q) =
     ((\<lambda>x. d x - (if x \<in> set xs \<and> node \<in> set (lookupDeps deps x) then 1 else 0)),
      q @ filter (\<lambda>x. node \<in> set (lookupDeps deps x) \<and> d x = 1) xs)"
proof (induction xs arbitrary: d q)
  case Nil
  then show ?case by simp
next
  case (Cons a xs)
  have notin: "a \<notin> set xs" and dist: "distinct xs" using Cons.prems by auto
  show ?case
  proof (cases "node \<in> set (lookupDeps deps a)")
    case False
    then show ?thesis
      using Cons.IH[OF dist] by (auto simp: stringInSlice_iff fun_eq_iff)
  next
    case True
    let ?d1 = "d(a := d a - 1)"
    let ?q1 = "if ?d1 a = 0 then q @ [a] else q"
    have step: "reduceInDegree node deps (a # xs) (d, q) = reduceInDegree node deps xs (?d1, ?q1)"
      using True by (simp add: stringInSlice_iff Let_def)
    have ih: "reduceInDegree node deps xs (?d1, ?q1) =
       ((\<lambda>x. ?d1 x - (if x \<in> set xs \<and> node \<in> set (lookupDeps deps x) then 1 else 0)),
        ?q1 @ filter (\<lambda>x. node \<in> set (lookupDeps deps x) \<and> ?d1 x = 1) xs)"
      by (rule Cons.IH[OF dist])
    have fn: "(\<lambda>x. ?d1 x - (if x \<in> set xs \<and> node \<in> set (lookupDeps deps x) then 1 else 0)) =
              (\<lambda>x. d x - (if x \<in> set (a # xs) \<and> node \<in> set (lookupDeps deps x) then 1 else 0))"
      using notin True by (auto simp: fun_eq_iff)
    have f: "filter (\<lambda>x. node \<in> set (lookupDeps deps x) \<and> ?d1 x = 1) xs =
             filter (\<lambda>x. node \<in> set (lookupDeps deps x) \<and> d x = 1) xs"
      using notin by (intro filter_cong) auto
    have ql: "?q1 @ filter (\<lambda>x. node \<in> set (lookupDeps deps x) \<and> ?d1 x = 1) xs =
              q @ filter (\<lambda>x. node \<in> set (lookupDeps deps x) \<and> d x = 1) (a # xs)"
      unfolding f using True by simp
    show ?thesis
      unfolding step ih fn ql ..
  qed
qed

lemma card_inter_le_inOps:
  "int (card (set operators \<inter> set (lookupDeps dependencies x))) \<le> inOps operators dependencies x"
proof -
  have "set operators \<inter> set (lookupDeps dependencies x) =
        set (filter (\<lambda>dep. dep \<in> set operators) (lookupDeps dependencies x))"
    by auto
  then have "card (set operators \<inter> set (lookupDeps dependencies x)) =
             card (set (filter (\<lambda>dep. dep \<in> set operators) (lookupDeps dependencies x)))"
    by (simp only:)
  also have "\<dots> \<le> length (filter (\<lambda>dep. dep \<in> set operators) (lookupDeps dependencies x))"
    by (rule card_length)
  finally show ?thesis
    unfolding inOps_def by simp
qed

lemma topoInv_queue_ready:
  assumes inv: "topoInv operators dependencies d q s" and x: "x \<in> set q"
  shows "set (lookupDeps dependencies x) \<inter> set operators \<subseteq> set s"
proof -
  let ?D = "set (lookupDeps dependencies x)"
  have xin: "x \<in> set operators" using inv x by (auto simp: topoInv_def)
  then have "d x \<le> 0" using inv x by (auto simp: topoInv_def)
  moreover have "d x = inOps operators dependencies x - int (card (set s \<inter> ?D))"
    using inv xin by (simp add: topoInv_def)
  ultimately have "inOps operators dependencies x \<le> int (card (set s \<inter> ?D))" by simp
  with card_inter_le_inOps[of operators dependencies x]
  have le: "card (set operators \<inter> ?D) \<le> card (set s \<inter> ?D)" by linarith
  have sub: "set s \<inter> ?D \<subseteq> set operators \<inter> ?D"
    using inv by (auto simp: topoInv_def)
  have "set s \<inter> ?D = set operators \<inter> ?D"
    using sub le by (intro card_seteq) auto
  then show ?thesis by auto
qed

lemma topoInv_step:
  assumes dist: "distinct operators"
    and inv: "topoInv operators dependencies d (node # q) s"
  shows "topoInv operators dependencies
           (fst (reduceInDegree node dependencies operators (d, q)))
           (snd (reduceInDegree node dependencies operators (d, q))) (s @ [node])"
proof -
  let ?D = "\<lambda>x. set (lookupDeps dependencies x)"
  let ?new = "filter (\<lambda>x. node \<in> ?D x \<and> d x = 1) operators"
  let ?d' = "\<lambda>x. d x - (if x \<in> set operators \<and> node \<in> ?D x then 1 else 0)"
  have red: "reduceInDegree node dependencies operators (d, q) = (?d', q @ ?new)"
    using reduceInDegree_eq[OF dist] by simp
  have a: "distinct (s @ node # q)" "set (s @ node # q) \<subseteq> set operators"
    and b: "\<forall>x \<in> set operators. d x = inOps operators dependencies x - int (card (set s \<inter> ?D x))"
    and c: "\<forall>x \<in> set operators. x \<in> set (s @ node # q) \<longleftrightarrow> d x \<le> 0"
    and o: "ordered operators dependencies s"
    using inv by (auto simp: topoInv_def)
  have node_notin: "node \<notin> set s" using a(1) by auto
  have new_fresh: "\<forall>x \<in> set ?new. x \<notin> set (s @ node # q)"
    using c by auto
  have a1: "distinct ((s @ [node]) @ q @ ?new)"
    using a(1) new_fresh dist by auto
  have a2: "set ((s @ [node]) @ q @ ?new) \<subseteq> set operators"
    using a(2) by auto
  have b1: "\<forall>x \<in> set operators.
       ?d' x = inOps operators dependencies x - int (card (set (s @ [node]) \<inter> ?D x))"
  proof
    fix x assume x: "x \<in> set operators"
    show "?d' x = inOps operators dependencies x - int (card (set (s @ [node]) \<inter> ?D x))"
    proof (cases "node \<in> ?D x")
      case True
      then have "set (s @ [node]) \<inter> ?D x = insert node (set s \<inter> ?D x)" by auto
      then have "card (set (s @ [node]) \<inter> ?D x) = Suc (card (set s \<inter> ?D x))"
        using node_notin by simp
      with b x True show ?thesis by simp
    next
      case False
      then have "set (s @ [node]) \<inter> ?D x = set s \<inter> ?D x" by auto
      with b x False show ?thesis by simp
    qed
  qed
  have c1: "\<forall>x \<in> set operators. x \<in> set ((s @ [node]) @ q @ ?new) \<longleftrightarrow> ?d' x \<le> 0"
  proof
    fix x assume x: "x \<in> set operators"
    have "x \<in> set ((s @ [node]) @ q @ ?new) \<longleftrightarrow>
          x \<in> set (s @ node # q) \<or> (node \<in> ?D x \<and> d x = 1)"
      using x by auto
    also have "\<dots> \<longleftrightarrow> d x \<le> 0 \<or> (node \<in> ?D x \<and> d x = 1)"
      using c x by simp
    also have "\<dots> \<longleftrightarrow> ?d' x \<le> 0"
      using x by auto
    finally show "x \<in> set ((s @ [node]) @ q @ ?new) \<longleftrightarrow> ?d' x \<le> 0" .
  qed
  have ready: "?D node \<inter> set operators \<subseteq> set s"
    using topoInv_queue_ready[OF inv, of node] by simp
  have o1: "ordered operators dependencies (s @ [node])"
    unfolding ordered_def
  proof (intro allI impI ballI)
    fix i b
    assume i: "i < length (s @ [node])"
      and bd: "b \<in> set (lookupDeps dependencies ((s @ [node]) ! i))"
      and bo: "b \<in> set operators"
    show "b \<in> set (take i (s @ [node]))"
    proof (cases "i < length s")
      case True
      with o bd bo show ?thesis by (auto simp: ordered_def nth_append)
    next
      case False
      with i have "i = length s" by simp
      with bd bo ready show ?thesis by auto
    qed
  qed
  show ?thesis
    unfolding red topoInv_def using a1 a2 b1 c1 o1 by simp
qed

lemma topoLoop_inv:
  "distinct operators \<Longrightarrow> topoInv operators dependencies d q s \<Longrightarrow>
   distinct (topoLoop operators dependencies (d, q, s)) \<and>
   set (topoLoop operators dependencies (d, q, s)) \<subseteq> set operators \<and>
   ordered operators dependencies (topoLoop operators dependencies (d, q, s))"
proof (induction operators dependencies "(d, q, s)" arbitrary: d q s rule: topoLoop.induct)
  case (1 operators dependencies inDegree sortedOps)
  then show ?case by (simp add: topoInv_def)
next
  case (2 operators dependencies inDegree node queue sortedOps)
  let ?st = "reduceInDegree node dependencies operators (inDegree, queue)"
  have "topoInv operators dependencies (fst ?st) (snd ?st) (sortedOps @ [node])"
    using topoInv_step[OF "2.prems"] .
  from "2.hyps"[OF refl "2.prems"(1) this] show ?case
    by (simp add: Let_def)
qed

lemma topoInv_init:
  assumes dist: "distinct operators"
  shows "topoInv operators dependencies
           (countInDegree operators dependencies (zeroInDegree operators))
           (filter (\<lambda>opName. countInDegree operators dependencies (zeroInDegree operators) opName = 0)
                   operators) []"
proof -
  have nn: "0 \<le> inOps operators dependencies x" for x by (simp add: inOps_def)
  show ?thesis
    unfolding topoInv_def countInDegree_eq[OF dist] ordered_def
    using dist nn by (auto simp: order.antisym)
qed

lemma TopologicalSort_sound:
  assumes dist: "distinct operators"
    and ok: "TopologicalSort operators dependencies = Inr sortedOps"
  shows "distinct sortedOps \<and> set sortedOps = set operators \<and> ordered operators dependencies sortedOps"
proof -
  let ?d = "countInDegree operators dependencies (zeroInDegree operators)"
  let ?q = "filter (\<lambda>opName. ?d opName = 0) operators"
  have eq: "sortedOps = topoLoop operators dependencies (?d, ?q, [])"
    and len: "length sortedOps = length operators"
    using ok by (auto simp: TopologicalSort_def Let_def split: if_splits)
  have r: "distinct sortedOps" "set sortedOps \<subseteq> set operators"
    "ordered operators dependencies sortedOps"
    using topoLoop_inv[OF dist topoInv_init[OF dist]] eq by auto
  have "card (set sortedOps) = card (set operators)"
    using r(1) dist len by (simp add: distinct_card)
  with r(2) have "set sortedOps = set operators"
    by (intro card_seteq) auto
  with r show ?thesis by simp
qed

lemma indexOf_take: "x \<in> set (take i xs) \<Longrightarrow> indexOf x xs < i"
proof (induction xs arbitrary: i)
  case Nil
  then show ?case by simp
next
  case (Cons y ys)
  then show ?case by (cases i) auto
qed

lemma indexOf_nth: "distinct xs \<Longrightarrow> i < length xs \<Longrightarrow> indexOf (xs ! i) xs = i"
proof (induction xs arbitrary: i)
  case Nil
  then show ?case by simp
next
  case (Cons y ys)
  then show ?case by (cases i) auto
qed

lemma ordered_indexOf:
  assumes "distinct s" and "ordered operators dependencies s"
    and "a \<in> set s" and "b \<in> set (lookupDeps dependencies a)" and "b \<in> set operators"
  shows "indexOf b s < indexOf a s"
proof -
  obtain i where i: "i < length s" "s ! i = a"
    using assms(3) by (auto simp: in_set_conv_nth)
  then have "b \<in> set (take i s)"
    using assms(2,4,5) by (auto simp: ordered_def)
  then have "indexOf b s < i" by (rule indexOf_take)
  moreover have "indexOf a s = i" using indexOf_nth[OF assms(1) i(1)] i(2) by simp
  ultimately show ?thesis by simp
qed

text \<open>
  C2. Topological validity: when the sort of a duplicate-free operator list succeeds, the
  order it returns is a permutation of the operators, and every dependency of an operator
  that is itself an operator stands strictly before it. (The operators are a set; on a
  list with a repeated name the loop can place an operator before one of its
  dependencies.)
\<close>

theorem TopologicalSort_valid:
  assumes "distinct operators"
    and "TopologicalSort operators dependencies = Inr sortedOps"
  shows "mset sortedOps = mset operators \<and>
         (\<forall>A \<in> set operators. \<forall>B \<in> set (lookupDeps dependencies A).
            B \<in> set operators \<longrightarrow> indexOf B sortedOps < indexOf A sortedOps)"
proof -
  have s: "distinct sortedOps" "set sortedOps = set operators"
    "ordered operators dependencies sortedOps"
    using TopologicalSort_sound[OF assms] by auto
  have "mset sortedOps = mset operators"
    using s(1,2) assms(1) by (simp add: set_eq_iff_mset_eq_distinct)
  moreover have "\<forall>A \<in> set operators. \<forall>B \<in> set (lookupDeps dependencies A).
            B \<in> set operators \<longrightarrow> indexOf B sortedOps < indexOf A sortedOps"
    using ordered_indexOf[OF s(1) s(3)] s(2) by blast
  ultimately show ?thesis by simp
qed

theorem TopologicalSort_valid_witness:
  "TopologicalSort [''A'', ''B'', ''C''] [(''A'', [''B'', ''C'']), (''B'', [''C'']), (''C'', [])]
     = Inr [''C'', ''B'', ''A''] \<and>
   mset [''C'', ''B'', ''A''] = mset [''A'', ''B'', ''C''] \<and>
   indexOf ''C'' [''C'', ''B'', ''A''] < indexOf ''B'' [''C'', ''B'', ''A'']"
proof -
  let ?deps = "[(''A'', [''B'', ''C'']), (''B'', [''C'']), (''C'', [])]"
  have h1: "distinct [''A'', ''B'', ''C'']" by simp
  have h2: "TopologicalSort [''A'', ''B'', ''C''] ?deps = Inr [''C'', ''B'', ''A'']"
    by code_simp
  have m: "''B'' \<in> set [''A'', ''B'', ''C'']" "''C'' \<in> set (lookupDeps ?deps ''B'')"
    "''C'' \<in> set [''A'', ''B'', ''C'']"
    by (simp_all add: lookupDeps_def)
  from TopologicalSort_valid[OF h1 h2] have v: "mset [''C'', ''B'', ''A''] = mset [''A'', ''B'', ''C'']"
    and o: "\<forall>A \<in> set [''A'', ''B'', ''C'']. \<forall>B \<in> set (lookupDeps ?deps A).
            B \<in> set [''A'', ''B'', ''C''] \<longrightarrow>
            indexOf B [''C'', ''B'', ''A''] < indexOf A [''C'', ''B'', ''A'']"
    by blast+
  from o m have "indexOf ''C'' [''C'', ''B'', ''A''] < indexOf ''B'' [''C'', ''B'', ''A'']"
    by blast
  with h2 v show ?thesis by blast
qed

lemma TopologicalSort_cases:
  "TopologicalSort operators dependencies = Inl ''dependency graph has a cycle'' \<or>
   (\<exists>sortedOps. TopologicalSort operators dependencies = Inr sortedOps)"
  by (simp add: TopologicalSort_def Let_def)

lemma TopologicalSort_cycle:
  assumes dist: "distinct operators"
    and cyc: "(a, a) \<in> (restrictedDeps operators dependencies)\<^sup>+"
  shows "TopologicalSort operators dependencies = Inl ''dependency graph has a cycle''"
proof (rule ccontr)
  assume "TopologicalSort operators dependencies \<noteq> Inl ''dependency graph has a cycle''"
  then obtain s where ok: "TopologicalSort operators dependencies = Inr s"
    using TopologicalSort_cases[of operators dependencies] by auto
  have s: "distinct s" "set s = set operators" "ordered operators dependencies s"
    using TopologicalSort_sound[OF dist ok] by auto
  have desc: "(x, y) \<in> (restrictedDeps operators dependencies)\<^sup>+ \<Longrightarrow> indexOf y s < indexOf x s" for x y
  proof (induction rule: trancl_induct)
    case (base y)
    then show ?case
      using ordered_indexOf[OF s(1) s(3)] s(2) by (auto simp: restrictedDeps_def)
  next
    case (step y z)
    have "indexOf z s < indexOf y s"
      using step(2) ordered_indexOf[OF s(1) s(3)] s(2) by (auto simp: restrictedDeps_def)
    with step(3) show ?case by simp
  qed
  from desc[OF cyc] show False by simp
qed

subsection \<open>The evaluation of one operator\<close>

lemma preconditionSkipMsg_empty_iff:
  "preconditionSkipMsg ds F = [] \<longleftrightarrow> set ds \<inter> F = {}"
  by (induction ds) (auto simp: quote_def)

lemma preconditionSkipMsg_names:
  "preconditionSkipMsg ds F \<noteq> [] \<Longrightarrow>
   \<exists>d \<in> set ds \<inter> F. preconditionSkipMsg ds F = ''Precondition operator '' @ quote d @ '' failed, skipping''"
  by (induction ds) (auto split: if_splits)

lemma preconditionSkipMsg_sorted:
  "sorted ds \<Longrightarrow> set ds \<inter> F \<noteq> {} \<Longrightarrow>
   preconditionSkipMsg ds F = ''Precondition operator '' @ quote (Min (set ds \<inter> F)) @ '' failed, skipping''"
proof (induction ds)
  case Nil
  then show ?case by simp
next
  case (Cons d ds)
  show ?case
  proof (cases "d \<in> F")
    case True
    have "Min (set (d # ds) \<inter> F) = d"
      using True Cons.prems(1) by (intro Min_eqI) auto
    with True show ?thesis by simp
  next
    case False
    then have eq: "set (d # ds) \<inter> F = set ds \<inter> F" by auto
    with Cons False show ?thesis by simp
  qed
qed



subsection \<open>The stage-2 loop and the cascading skip\<close>

lemma checkOperator_absent:
  "checkOperator fd (n, None) st =
     (tcAppend (fst st) (''operator conditions '' @ n) []
        (''Operator '' @ quote n @ '' not found in the cluster, skipping''), snd st)"
  by (simp add: checkOperator_def Let_def)

lemma checkOperator_dep_failed:
  "preconditionSkipMsg (lookupDeps fd n) (snd st) \<noteq> [] \<Longrightarrow>
   checkOperator fd (n, Some cop) st =
     (tcAppend (fst st) (''operator conditions '' @ n) []
        (preconditionSkipMsg (lookupDeps fd n) (snd st)), snd st)"
  by (simp add: checkOperator_def Let_def)

lemma checkOperator_step:
  "\<exists>tc. TestCases (fst (checkOperator fd item st)) = TestCases (fst st) @ [tc] \<and>
        Name tc = ''operator conditions '' @ fst item \<and>
        (snd (checkOperator fd item st) = snd st \<or>
         snd (checkOperator fd item st) = insert (fst item) (snd st) \<and> snd item \<noteq> None)"
  by (cases "snd item") (auto simp: checkOperator_def Let_def TestCases_tcAppend)

lemma checkOperators_append:
  "checkOperators fd (xs @ ys) st = checkOperators fd ys (checkOperators fd xs st)"
  by (induction xs arbitrary: st) simp_all

lemma checkOperators_cases:
  "\<exists>tcs. TestCases (fst (checkOperators fd xs st)) = TestCases (fst st) @ tcs \<and>
         map Name tcs = map (\<lambda>i. ''operator conditions '' @ fst i) xs"
proof (induction xs arbitrary: st)
  case Nil
  then show ?case by simp
next
  case (Cons x xs)
  obtain tc where tc: "TestCases (fst (checkOperator fd x st)) = TestCases (fst st) @ [tc]"
    "Name tc = ''operator conditions '' @ fst x"
    using checkOperator_step[of fd x st] by blast
  obtain tcs where tcs: "TestCases (fst (checkOperators fd xs (checkOperator fd x st))) =
       TestCases (fst (checkOperator fd x st)) @ tcs"
    "map Name tcs = map (\<lambda>i. ''operator conditions '' @ fst i) xs"
    using Cons.IH[of "checkOperator fd x st"] by blast
  show ?case
    by (rule exI[of _ "tc # tcs"]) (simp add: tc tcs)
qed

lemma checkOperators_failed_mono:
  "snd st \<subseteq> snd (checkOperators fd xs st)"
proof (induction xs arbitrary: st)
  case Nil
  then show ?case by simp
next
  case (Cons x xs)
  have "snd st \<subseteq> snd (checkOperator fd x st)"
    using checkOperator_step[of fd x st] by auto
  also have "\<dots> \<subseteq> snd (checkOperators fd xs (checkOperator fd x st))"
    by (rule Cons.IH)
  finally show ?case by simp
qed

lemma checkOperators_failed_others:
  "n \<notin> fst ` set xs \<Longrightarrow> n \<in> snd (checkOperators fd xs st) \<longleftrightarrow> n \<in> snd st"
proof (induction xs arbitrary: st)
  case Nil
  then show ?case by simp
next
  case (Cons x xs)
  have "n \<in> snd (checkOperator fd x st) \<longleftrightarrow> n \<in> snd st"
    using checkOperator_step[of fd x st] Cons.prems by auto
  with Cons show ?case by simp
qed

lemma checkOperators_failed_present:
  "snd (checkOperators fd xs st) \<subseteq> snd st \<union> {n. \<exists>cop. (n, Some cop) \<in> set xs}"
proof (induction xs arbitrary: st)
  case Nil
  then show ?case by simp
next
  case (Cons x xs)
  have "snd (checkOperator fd x st) \<subseteq> snd st \<union> {n. \<exists>cop. (n, Some cop) \<in> set [x]}"
    using checkOperator_step[of fd x st] by (cases x) auto
  with Cons.IH[of "checkOperator fd x st"] show ?case by auto
qed

lemma prefix_inj: "''operator conditions '' @ a = ''operator conditions '' @ b \<Longrightarrow> a = b"
  by simp

lemma cascade_in_loop:
  assumes dist: "distinct (map fst (pre @ (X, ox) # post))"
    and A_dep: "A \<in> set (lookupDeps fd X)"
    and A_pre: "A \<in> fst ` set pre"
    and F0: "F0 = {}"
    and A_failed: "A \<in> snd (checkOperators fd (pre @ (X, ox) # post) (suite, F0))"
  shows "X \<notin> snd (checkOperators fd (pre @ (X, ox) # post) (suite, F0)) \<and>
    (\<exists>tc \<in> set (newCases suite (fst (checkOperators fd (pre @ (X, ox) # post) (suite, F0)))).
        Name tc = ''operator conditions '' @ X) \<and>
    (\<forall>tc \<in> set (newCases suite (fst (checkOperators fd (pre @ (X, ox) # post) (suite, F0)))).
        Name tc = ''operator conditions '' @ X \<longrightarrow>
        (if ox \<noteq> None
         then \<exists>d \<in> snd (checkOperators fd (pre @ (X, ox) # post) (suite, F0)).
                d \<in> set (lookupDeps fd X) \<and>
                outcomeOf tc = Skipped (''Precondition operator '' @ quote d @ '' failed, skipping'')
         else outcomeOf tc =
                Skipped (''Operator '' @ quote X @ '' not found in the cluster, skipping'')))"
proof -
  let ?all = "pre @ (X, ox) # post"
  let ?st1 = "checkOperators fd pre (suite, F0)"
  let ?st2 = "checkOperator fd (X, ox) ?st1"
  let ?st3 = "checkOperators fd post ?st2"
  have fin: "checkOperators fd ?all (suite, F0) = ?st3"
    by (simp add: checkOperators_append)
  have X_pre: "X \<notin> fst ` set pre" and X_post: "X \<notin> fst ` set post"
    and A_rest: "A \<noteq> X" "A \<notin> fst ` set post"
    using dist A_pre by auto
  have "A \<in> snd ?st3" using A_failed fin by simp
  then have "A \<in> snd ?st2" using checkOperators_failed_others[OF A_rest(2)] by simp
  then have A1: "A \<in> snd ?st1"
    using checkOperator_step[of fd "(X, ox)" ?st1] A_rest(1) by auto
  have X1: "X \<notin> snd ?st1"
    using checkOperators_failed_others[OF X_pre, of fd "(suite, F0)"] F0 by simp
  have msg: "preconditionSkipMsg (lookupDeps fd X) (snd ?st1) \<noteq> []"
    using A1 A_dep by (auto simp: preconditionSkipMsg_empty_iff)
  define skip where "skip = (case ox of
        None \<Rightarrow> ''Operator '' @ quote X @ '' not found in the cluster, skipping''
      | Some _ \<Rightarrow> preconditionSkipMsg (lookupDeps fd X) (snd ?st1))"
  have skip_ne: "skip \<noteq> []"
    using msg by (cases ox) (simp_all add: skip_def)
  have st2: "?st2 = (tcAppend (fst ?st1) (''operator conditions '' @ X) [] skip, snd ?st1)"
    using msg by (cases ox) (simp_all add: skip_def checkOperator_absent checkOperator_dep_failed)
  let ?tc = "\<lparr>Name = ''operator conditions '' @ X, FailureOutput = None, SkipMessage = Some skip\<rparr>"
  have tc2: "TestCases (fst ?st2) = TestCases (fst ?st1) @ [?tc]"
    using skip_ne by (simp add: st2 TestCases_tcAppend)
  have X2: "X \<notin> snd ?st2" using X1 by (simp add: st2)
  have X3: "X \<notin> snd ?st3"
    using checkOperators_failed_others[OF X_post, of fd ?st2] X2 by simp
  obtain tcs1 where t1: "TestCases (fst ?st1) = TestCases suite @ tcs1"
    "map Name tcs1 = map (\<lambda>i. ''operator conditions '' @ fst i) pre"
    using checkOperators_cases[of fd pre "(suite, F0)"] by auto
  obtain tcs3 where t3: "TestCases (fst ?st3) = TestCases (fst ?st2) @ tcs3"
    "map Name tcs3 = map (\<lambda>i. ''operator conditions '' @ fst i) post"
    using checkOperators_cases[of fd post ?st2] by auto
  have new: "newCases suite (fst ?st3) = tcs1 @ ?tc # tcs3"
    by (simp add: newCases_def t3 tc2 t1)
  have no1: "Name tc \<noteq> ''operator conditions '' @ X" if "tc \<in> set tcs1" for tc
  proof -
    from that have "Name tc \<in> set (map Name tcs1)" by simp
    then obtain i where "i \<in> set pre" "Name tc = ''operator conditions '' @ fst i"
      unfolding t1(2) by auto
    with X_pre show ?thesis by auto
  qed
  have no3: "Name tc \<noteq> ''operator conditions '' @ X" if "tc \<in> set tcs3" for tc
  proof -
    from that have "Name tc \<in> set (map Name tcs3)" by simp
    then obtain i where "i \<in> set post" "Name tc = ''operator conditions '' @ fst i"
      unfolding t3(2) by auto
    with X_post show ?thesis by auto
  qed
  have only: "tc = ?tc" if "tc \<in> set (newCases suite (fst ?st3))"
    "Name tc = ''operator conditions '' @ X" for tc
    using that no1 no3 unfolding new by auto
  have mono: "snd ?st1 \<subseteq> snd ?st3"
    using checkOperators_failed_mono[of ?st2 fd post] by (simp add: st2)
  have out: "if ox \<noteq> None
         then \<exists>d \<in> snd ?st3. d \<in> set (lookupDeps fd X) \<and>
                outcomeOf ?tc = Skipped (''Precondition operator '' @ quote d @ '' failed, skipping'')
         else outcomeOf ?tc =
                Skipped (''Operator '' @ quote X @ '' not found in the cluster, skipping'')"
  proof (cases ox)
    case None
    then show ?thesis by (simp add: outcomeOf_def skip_def)
  next
    case (Some cop)
    obtain d where "d \<in> set (lookupDeps fd X) \<inter> snd ?st1"
      "preconditionSkipMsg (lookupDeps fd X) (snd ?st1) =
         ''Precondition operator '' @ quote d @ '' failed, skipping''"
      using preconditionSkipMsg_names[OF msg] by blast
    with Some mono show ?thesis
      by (auto simp: outcomeOf_def skip_def)
  qed
  have ex: "\<exists>tc \<in> set (newCases suite (fst ?st3)). Name tc = ''operator conditions '' @ X"
    unfolding new by (intro bexI[of _ ?tc]) simp_all
  show ?thesis
    unfolding fin using X3 ex only out by blast
qed

lemma dom_buildOperatorsMap:
  "dom (buildOperatorsMap items) = metadata_name ` set items"
proof -
  have "dom (fold (\<lambda>item m. m(metadata_name item \<mapsto> item)) items m0) =
        dom m0 \<union> metadata_name ` set items" for m0 :: "string \<rightharpoonup> ClusterOperator"
    by (induction items arbitrary: m0) auto
  then show ?thesis by (simp add: buildOperatorsMap_def)
qed

lemma fst_consumeCore:
  "distinct xs \<Longrightarrow> fst (consumeCore xs m) = map (\<lambda>n. (n, m n)) xs"
proof (induction xs arbitrary: m)
  case Nil
  then show ?case by simp
next
  case (Cons a xs)
  have "map (\<lambda>n. (n, (m(a := None)) n)) xs = map (\<lambda>n. (n, m n)) xs"
    using Cons.prems by (intro map_cong) auto
  with Cons show ?case
    by (cases "m a") (simp_all add: Let_def)
qed

lemma snd_consumeCore:
  "snd (consumeCore xs m) = m |` (- set xs)"
proof (induction xs arbitrary: m)
  case Nil
  then show ?case by simp
next
  case (Cons a xs)
  show ?case
  proof (cases "m a")
    case None
    have "snd (consumeCore (a # xs) m) = snd (consumeCore xs m)"
      using None by (simp add: Let_def)
    also have "\<dots> = m |` (- set xs)" by (rule Cons.IH)
    also have "\<dots> = m |` (- set (a # xs))"
      using None by (auto simp: restrict_map_def fun_eq_iff)
    finally show ?thesis .
  next
    case (Some cop)
    have "snd (consumeCore (a # xs) m) = snd (consumeCore xs (m(a := None)))"
      using Some by (simp add: Let_def)
    also have "\<dots> = (m(a := None)) |` (- set xs)" by (rule Cons.IH)
    also have "\<dots> = m |` (- set (a # xs))"
      by (auto simp: restrict_map_def fun_eq_iff)
    finally show ?thesis .
  qed
qed

lemma rangeMap_keys:
  "map fst (rangeMap keyOrder m) = filter (\<lambda>k. m k \<noteq> None) (remdups keyOrder)"
proof -
  have "map fst (concat (map (\<lambda>k. case m k of None \<Rightarrow> [] | Some v \<Rightarrow> [(k, v)]) ks)) =
        filter (\<lambda>k. m k \<noteq> None) ks" for ks
    by (induction ks) (auto split: option.splits)
  then show ?thesis by (simp add: rangeMap_def)
qed

lemma extras_names:
  "map fst (map (\<lambda>(opName, cop). (opName, Some cop)) (rangeMap keyOrder (m |` (- S)))) =
   filter (\<lambda>k. m k \<noteq> None \<and> k \<notin> S) (remdups keyOrder)"
proof -
  have a: "map fst (map (\<lambda>(opName, cop). (opName, Some cop)) xs) = map fst xs"
    for xs :: "(string \<times> 'a) list"
    by (induction xs) auto
  have b: "filter (\<lambda>k. (m |` (- S)) k \<noteq> None) ks = filter (\<lambda>k. m k \<noteq> None \<and> k \<notin> S) ks" for ks
    by (intro filter_cong) (auto simp: restrict_map_def)
  show ?thesis
    by (simp only: a rangeMap_keys b)
qed

lemma finalOperators_split:
  assumes "distinct sortedOps"
  shows "\<exists>extras. finalOperatorsOf sortedOps m keyOrder = map (\<lambda>n. (n, m n)) sortedOps @ extras \<and>
           distinct (map fst extras) \<and> set (map fst extras) \<inter> set sortedOps = {}"
proof -
  let ?extras = "map (\<lambda>(opName, cop). (opName, Some cop)) (rangeMap keyOrder (m |` (- set sortedOps)))"
  have "finalOperatorsOf sortedOps m keyOrder = map (\<lambda>n. (n, m n)) sortedOps @ ?extras"
    by (simp add: finalOperatorsOf_def fst_consumeCore[OF assms] snd_consumeCore)
  moreover have "distinct (map fst ?extras)" "set (map fst ?extras) \<inter> set sortedOps = {}"
    unfolding extras_names by auto
  ultimately show ?thesis by blast
qed

lemma operatorStage_Inr:
  assumes "operatorStage manualDeps items keyOrder suite = Inr res"
  shows "\<exists>sortedOps.
           TopologicalSort (sort (coreSet manualDeps)) (expandDependencies manualDeps) = Inr sortedOps \<and>
           res = checkOperators (expandDependencies manualDeps)
                   (finalOperatorsOf sortedOps (buildOperatorsMap items) keyOrder) (suite, {})"
  using assms
  by (auto simp: operatorStage_def Let_def finalOperatorsOf_def keys_expandDependencies
           split: sum.splits)

lemma chainABC_depends:
  "(''B'', ''A'') \<in> (dependsOn chainABC)\<^sup>+" "(''C'', ''B'') \<in> (dependsOn chainABC)\<^sup>+"
  by (rule trancl.r_into_trancl, simp add: dependsOn_def lookupDeps_def chainABC_def)+

text \<open>
  C1, as the code has it. In a chain where \<open>C\<close> depends on \<open>B\<close> and \<open>B\<close> on \<open>A\<close>
  (directly or through other operators) and \<open>A\<close> is in the failure set at the end of
  the run (it was present and evaluated as Failed), each of \<open>B\<close> and \<open>C\<close> has a test
  case, stays out of the failure set and is never Failed: when it is present in the
  cluster it is Skipped with the message that names a failed operator of its expanded
  dependency list; when it is absent it is Skipped with the not-found message, which the
  loop writes before it looks at the dependencies.
\<close>

theorem cascading_skip:
  assumes run: "operatorStage manualDeps items keyOrder suite = Inr (suite', failed)"
    and BA: "(B, A) \<in> (dependsOn manualDeps)\<^sup>+"
    and CB: "(C, B) \<in> (dependsOn manualDeps)\<^sup>+"
    and A: "A \<in> failed"
  shows "\<forall>X \<in> {B, C}.
           X \<notin> failed \<and>
           (\<exists>tc \<in> set (newCases suite suite'). Name tc = ''operator conditions '' @ X) \<and>
           (\<forall>tc \<in> set (newCases suite suite'). Name tc = ''operator conditions '' @ X \<longrightarrow>
              (if X \<in> metadata_name ` set items
               then \<exists>d \<in> failed. d \<in> set (lookupDeps (expandDependencies manualDeps) X) \<and>
                      outcomeOf tc = Skipped (''Precondition operator '' @ quote d @ '' failed, skipping'')
               else outcomeOf tc =
                      Skipped (''Operator '' @ quote X @ '' not found in the cluster, skipping'')))"
proof
  fix X assume "X \<in> {B, C}"
  then have XA: "(X, A) \<in> (dependsOn manualDeps)\<^sup>+"
    using BA CB by auto
  let ?fd = "expandDependencies manualDeps"
  let ?core = "sort (coreSet manualDeps)"
  let ?m = "buildOperatorsMap items"
  obtain sortedOps where srt: "TopologicalSort ?core ?fd = Inr sortedOps"
    and res: "(suite', failed) = checkOperators ?fd (finalOperatorsOf sortedOps ?m keyOrder) (suite, {})"
    using operatorStage_Inr[OF run] by blast
  have dcore: "distinct ?core" by (simp add: distinct_coreSet)
  have s: "distinct sortedOps" "set sortedOps = set ?core" "ordered ?core ?fd sortedOps"
    using TopologicalSort_sound[OF dcore srt] by auto
  have Xcore: "X \<in> set sortedOps" and Acore: "A \<in> set ?core"
    using dependsOn_in_coreSet[OF XA] s(2) by (auto simp: set_coreSet)
  have Adep: "A \<in> set (lookupDeps ?fd X)"
    using XA by (simp add: set_lookup_expandDependencies)
  obtain pre post where sp: "sortedOps = pre @ X # post"
    using Xcore by (auto dest: split_list)
  have "length pre < length sortedOps" "sortedOps ! length pre = X"
    by (simp_all add: sp)
  with s(3) Adep Acore have "A \<in> set (take (length pre) sortedOps)"
    unfolding ordered_def by blast
  then have Apre: "A \<in> set pre" by (simp add: sp)
  obtain extras where fo: "finalOperatorsOf sortedOps ?m keyOrder = map (\<lambda>n. (n, ?m n)) sortedOps @ extras"
    and ex: "distinct (map fst extras)" "set (map fst extras) \<inter> set sortedOps = {}"
    using finalOperators_split[OF s(1)] by blast
  let ?pre = "map (\<lambda>n. (n, ?m n)) pre"
  let ?post = "map (\<lambda>n. (n, ?m n)) post @ extras"
  have fo': "finalOperatorsOf sortedOps ?m keyOrder = ?pre @ (X, ?m X) # ?post"
    using fo unfolding sp by simp
  have names: "map fst (?pre @ (X, ?m X) # ?post) = sortedOps @ map fst extras"
    by (simp add: sp comp_def)
  have dist: "distinct (map fst (?pre @ (X, ?m X) # ?post))"
    unfolding names using s(1) ex by auto
  have Apre': "A \<in> fst ` set ?pre" using Apre by force
  have r: "checkOperators ?fd (?pre @ (X, ?m X) # ?post) (suite, {}) = (suite', failed)"
    using res fo' by simp
  have Af: "A \<in> snd (checkOperators ?fd (?pre @ (X, ?m X) # ?post) (suite, {}))"
    using A r by simp
  have present: "?m X \<noteq> None \<longleftrightarrow> X \<in> metadata_name ` set items"
    using dom_buildOperatorsMap[of items] by (auto simp: dom_def)
  show "X \<notin> failed \<and>
           (\<exists>tc \<in> set (newCases suite suite'). Name tc = ''operator conditions '' @ X) \<and>
           (\<forall>tc \<in> set (newCases suite suite'). Name tc = ''operator conditions '' @ X \<longrightarrow>
              (if X \<in> metadata_name ` set items
               then \<exists>d \<in> failed. d \<in> set (lookupDeps (expandDependencies manualDeps) X) \<and>
                      outcomeOf tc = Skipped (''Precondition operator '' @ quote d @ '' failed, skipping'')
               else outcomeOf tc =
                      Skipped (''Operator '' @ quote X @ '' not found in the cluster, skipping'')))"
    using cascade_in_loop[OF dist Adep Apre' refl Af, unfolded r fst_conv snd_conv present] .
qed

theorem cascading_skip_witness:
  "operatorStage chainABC
     [exampleOperator ''A'' ''True'' ''True'' ''False'',
      exampleOperator ''B'' ''True'' ''False'' ''False'',
      exampleOperator ''C'' ''True'' ''False'' ''False''] [] newSuite
   = Inr (fst (projr (operatorStage chainABC
     [exampleOperator ''A'' ''True'' ''True'' ''False'',
      exampleOperator ''B'' ''True'' ''False'' ''False'',
      exampleOperator ''C'' ''True'' ''False'' ''False''] [] newSuite)), {''A''}) \<and>
   ''B'' \<notin> {''A''} \<and> ''C'' \<notin> {''A''} \<and>
   (\<exists>tc d. tc \<in> set (newCases newSuite (fst (projr (operatorStage chainABC
     [exampleOperator ''A'' ''True'' ''True'' ''False'',
      exampleOperator ''B'' ''True'' ''False'' ''False'',
      exampleOperator ''C'' ''True'' ''False'' ''False''] [] newSuite)))) \<and>
      Name tc = ''operator conditions B'' \<and> d \<in> {''A''} \<and>
      outcomeOf tc = Skipped (''Precondition operator '' @ quote d @ '' failed, skipping''))"
proof -
  let ?items = "[exampleOperator ''A'' ''True'' ''True'' ''False'',
      exampleOperator ''B'' ''True'' ''False'' ''False'',
      exampleOperator ''C'' ''True'' ''False'' ''False'']"
  let ?s = "fst (projr (operatorStage chainABC ?items [] newSuite))"
  have run: "operatorStage chainABC ?items [] newSuite = Inr (?s, {''A''})"
    by code_simp
  have A: "''A'' \<in> {''A''}" by simp
  have present: "''B'' \<in> metadata_name ` set ?items"
    by (simp add: exampleOperator_def)
  note c = cascading_skip[OF run chainABC_depends A]
  from c have out: "''B'' \<notin> {''A''}" "''C'' \<notin> {''A''}"
    by blast+
  from c obtain tc where tc: "tc \<in> set (newCases newSuite ?s)"
    "Name tc = ''operator conditions '' @ ''B''"
    by blast
  with c present obtain d where "d \<in> {''A''}"
    "outcomeOf tc = Skipped (''Precondition operator '' @ quote d @ '' failed, skipping'')"
    by (metis insertI1)
  with tc have "\<exists>tc d. tc \<in> set (newCases newSuite ?s) \<and>
      Name tc = ''operator conditions B'' \<and> d \<in> {''A''} \<and>
      outcomeOf tc = Skipped (''Precondition operator '' @ quote d @ '' failed, skipping'')"
    by auto
  with run out show ?thesis by blast
qed

text \<open>
  The claim as first stated asks for a message that names a failed precondition for both
  \<open>B\<close> and \<open>C\<close>. With \<open>A\<close> present and failed, \<open>C\<close> present and \<open>B\<close> absent from
  the cluster, the test case of \<open>B\<close> carries the not-found message instead.
\<close>

theorem cascading_skip_absent_counterexample:
  "\<not> isl (operatorStage chainABC
            [exampleOperator ''A'' ''True'' ''True'' ''False'',
             exampleOperator ''C'' ''True'' ''False'' ''False''] [] newSuite) \<and>
   ''A'' \<in> snd (projr (operatorStage chainABC
            [exampleOperator ''A'' ''True'' ''True'' ''False'',
             exampleOperator ''C'' ''True'' ''False'' ''False''] [] newSuite)) \<and>
   map (\<lambda>tc. (Name tc, outcomeOf tc))
       (newCases newSuite (fst (projr (operatorStage chainABC
            [exampleOperator ''A'' ''True'' ''True'' ''False'',
             exampleOperator ''C'' ''True'' ''False'' ''False''] [] newSuite)))) ! 1
     = (''operator conditions B'', Skipped ''Operator \"B\" not found in the cluster, skipping'')"
  by code_simp

subsection \<open>A cycle in the table\<close>

text \<open>
  C3. When the dependency relation between the members of a duplicate-free operator list
  has a cycle, the sort returns the error and no order. In \<^verbatim>\<open>Run\<close> the sort works
  on the expanded table, where a cycle of the direct table shows as an operator in its
  own list: the operator stage then ends with the error before stage 2, and the run
  returns without printing a suite, so no operator test case is emitted.
\<close>

theorem cycle_aborts:
  "(distinct operators \<and> (a, a) \<in> (restrictedDeps operators dependencies)\<^sup>+ \<longrightarrow>
      TopologicalSort operators dependencies = Inl ''dependency graph has a cycle'') \<and>
   ((b, b) \<in> (dependsOn manualDeps)\<^sup>+ \<longrightarrow>
      operatorStage manualDeps items keyOrder suite = Inl ''dependency graph has a cycle'' \<and>
      RunWith manualDeps JUnitDir machineList nodeList clusterOperators keyOrder start = None)"
proof (intro conjI impI)
  assume "distinct operators \<and> (a, a) \<in> (restrictedDeps operators dependencies)\<^sup>+"
  then show "TopologicalSort operators dependencies = Inl ''dependency graph has a cycle''"
    using TopologicalSort_cycle by blast
next
  assume cyc: "(b, b) \<in> (dependsOn manualDeps)\<^sup>+"
  let ?fd = "expandDependencies manualDeps"
  let ?core = "sort (coreSet manualDeps)"
  have dcore: "distinct ?core" by (simp add: distinct_coreSet)
  have "b \<in> set ?core"
    using dependsOn_in_coreSet[OF cyc] by (simp add: set_coreSet)
  moreover have "b \<in> set (lookupDeps ?fd b)"
    using cyc by (simp add: set_lookup_expandDependencies)
  ultimately have "(b, b) \<in> restrictedDeps ?core ?fd"
    by (simp add: restrictedDeps_def)
  then have "(b, b) \<in> (restrictedDeps ?core ?fd)\<^sup>+" by (rule trancl.r_into_trancl)
  then have err: "TopologicalSort ?core ?fd = Inl ''dependency graph has a cycle''"
    using TopologicalSort_cycle[OF dcore] by blast
  show stage: "operatorStage manualDeps items keyOrder suite = Inl ''dependency graph has a cycle''"
    using err by (simp add: operatorStage_def Let_def keys_expandDependencies)
  have "operatorStage manualDeps its keyOrder s = Inl ''dependency graph has a cycle''" for its s
    using err by (simp add: operatorStage_def Let_def keys_expandDependencies)
  then show "RunWith manualDeps JUnitDir machineList nodeList clusterOperators keyOrder start = None"
    by (cases clusterOperators) (simp_all add: RunWith_def Let_def)
qed

theorem cycle_aborts_witness:
  "distinct [''A'', ''B''] \<and>
   (''A'', ''A'') \<in> (restrictedDeps [''A'', ''B''] cycleAB)\<^sup>+ \<and>
   (''A'', ''A'') \<in> (dependsOn cycleAB)\<^sup>+ \<and>
   TopologicalSort [''A'', ''B''] cycleAB = Inl ''dependency graph has a cycle'' \<and>
   RunWith cycleAB ''junit'' (Inr []) (Inr [])
     (Inr [exampleOperator ''A'' ''True'' ''False'' ''False'']) []
     \<lparr>year = 2026, month = 1, day = 2, hour = 15, minute = 4, second = 5\<rparr> = None"
proof -
  have d: "distinct [''A'', ''B'']" by simp
  have r1: "(''A'', ''B'') \<in> restrictedDeps [''A'', ''B''] cycleAB"
    and r2: "(''B'', ''A'') \<in> restrictedDeps [''A'', ''B''] cycleAB"
    by (simp_all add: restrictedDeps_def lookupDeps_def cycleAB_def)
  have c1: "(''A'', ''A'') \<in> (restrictedDeps [''A'', ''B''] cycleAB)\<^sup>+"
    using r1 r2 by (meson trancl.r_into_trancl trancl_into_trancl)
  have e1: "(''A'', ''B'') \<in> dependsOn cycleAB" and e2: "(''B'', ''A'') \<in> dependsOn cycleAB"
    by (simp_all add: dependsOn_def lookupDeps_def cycleAB_def)
  have c2: "(''A'', ''A'') \<in> (dependsOn cycleAB)\<^sup>+"
    using e1 e2 by (meson trancl.r_into_trancl trancl_into_trancl)
  note t = cycle_aborts[of "[''A'', ''B'']" "''A''" cycleAB "''A''" cycleAB
      "[exampleOperator ''A'' ''True'' ''False'' ''False'']" "[]" newSuite "''junit''"
      "Inr []" "Inr []" "Inr [exampleOperator ''A'' ''True'' ''False'' ''False'']"
      "\<lparr>year = 2026, month = 1, day = 2, hour = 15, minute = 4, second = 5\<rparr>"]
  from t d c1 c2 show ?thesis by blast
qed

subsection \<open>Operators outside the dependency table\<close>

lemma preconditionSkipMsg_insert_unlisted:
  "x \<notin> set ds \<Longrightarrow> preconditionSkipMsg ds (insert x F) = preconditionSkipMsg ds F"
  by (induction ds) auto

lemma checkOperator_insert_unlisted:
  assumes "x \<notin> set (lookupDeps fd (fst item))"
  shows "checkOperator fd item (suite, insert x F) =
         (fst (checkOperator fd item (suite, F)), insert x (snd (checkOperator fd item (suite, F))))"
  using preconditionSkipMsg_insert_unlisted[OF assms, of F]
  by (cases "snd item") (auto simp: checkOperator_def Let_def insert_commute)

lemma checkOperators_insert_unlisted:
  assumes "\<forall>n. x \<notin> set (lookupDeps fd n)"
  shows "checkOperators fd xs (suite, insert x F) =
         (fst (checkOperators fd xs (suite, F)), insert x (snd (checkOperators fd xs (suite, F))))"
proof (induction xs arbitrary: suite F)
  case Nil
  then show ?case by simp
next
  case (Cons i xs)
  obtain s1 F1 where st: "checkOperator fd i (suite, F) = (s1, F1)"
    by (cases "checkOperator fd i (suite, F)")
  have "checkOperator fd i (suite, insert x F) = (s1, insert x F1)"
    using checkOperator_insert_unlisted[of x fd i suite F] assms st by simp
  then show ?case
    using Cons.IH[of s1 F1] st by simp
qed

lemma expanded_lists_in_domain:
  "set (lookupDeps (expandDependencies m) n) \<subseteq> dom (map_of (expandDependencies m))"
proof
  fix b assume "b \<in> set (lookupDeps (expandDependencies m) n)"
  then have "(n, b) \<in> (dependsOn m)\<^sup>+" by (simp add: set_lookup_expandDependencies)
  then have "b \<in> set (coreSet m)" using dependsOn_in_coreSet by blast
  then show "b \<in> dom (map_of (expandDependencies m))"
    by (simp add: map_of_expandDependencies dom_def)
qed

text \<open>
  C8, as the code has it. An operator that is not a key of the expanded table has no
  dependency of its own; when its condition check fails it is inserted in the failure set
  like any other operator; and since it stands in no expanded list, the rest of the loop
  yields the same suite with it in the failure set as without it: its failure never
  makes another operator skipped.
\<close>

theorem extra_failure_never_skips:
  assumes "x \<notin> dom (map_of (expandDependencies manualDeps))"
  shows "lookupDeps (expandDependencies manualDeps) x = [] \<and>
         (\<not> (conditionStatus cop ''Available'' = ''True'' \<and>
             conditionStatus cop ''Degraded'' = ''False'' \<and>
             conditionStatus cop ''Progressing'' = ''False'') \<longrightarrow>
          snd (checkOperator (expandDependencies manualDeps) (x, Some cop) (suite, failedOperators))
            = insert x failedOperators) \<and>
         fst (checkOperators (expandDependencies manualDeps) rest (suite', insert x failedOperators))
           = fst (checkOperators (expandDependencies manualDeps) rest (suite', failedOperators))"
proof -
  let ?fd = "expandDependencies manualDeps"
  have nil: "lookupDeps ?fd x = []"
    using assms by (auto simp: lookupDeps_def dom_def split: option.splits)
  have unlisted: "\<forall>n. x \<notin> set (lookupDeps ?fd n)"
    using expanded_lists_in_domain[of manualDeps] assms by blast
  have "\<forall>dep \<in> set (lookupDeps ?fd x). dep \<notin> failedOperators" by (simp add: nil)
  then have "preconditionSkipMsg (lookupDeps ?fd x) failedOperators = []"
    by (simp add: nil)
  then have fail: "\<not> (conditionStatus cop ''Available'' = ''True'' \<and>
             conditionStatus cop ''Degraded'' = ''False'' \<and>
             conditionStatus cop ''Progressing'' = ''False'') \<longrightarrow>
          snd (checkOperator ?fd (x, Some cop) (suite, failedOperators)) = insert x failedOperators"
    by (auto simp: checkOperator_def Let_def conditionStatus_def)
  show ?thesis
    using nil fail checkOperators_insert_unlisted[OF unlisted, of rest suite' failedOperators]
    by simp
qed

theorem extra_failure_never_skips_witness:
  "''foo'' \<notin> dom (map_of (expandDependencies [(''etcd'', [])])) \<and>
   lookupDeps (expandDependencies [(''etcd'', [])]) ''foo'' = [] \<and>
   fst (checkOperators (expandDependencies [(''etcd'', [])])
          [(''etcd'', Some (exampleOperator ''etcd'' ''True'' ''False'' ''False''))]
          (newSuite, insert ''foo'' {}))
     = fst (checkOperators (expandDependencies [(''etcd'', [])])
          [(''etcd'', Some (exampleOperator ''etcd'' ''True'' ''False'' ''False''))]
          (newSuite, {}))"
proof -
  have h: "''foo'' \<notin> dom (map_of (expandDependencies [(''etcd'', [])]))"
    by code_simp
  from extra_failure_never_skips[OF h, where rest = "[(''etcd'', Some (exampleOperator ''etcd'' ''True'' ''False'' ''False''))]"
      and suite' = newSuite and failedOperators = "{}"]
  show ?thesis using h by blast
qed

text \<open>
  The claim as first stated says that a failed extra operator is not added to the failure
  set. With \<open>etcd\<close> the only entry of the table and a failing cluster operator
  \<open>foo\<close>, the failure set at the end of the stage holds \<open>foo\<close>.
\<close>

theorem extra_failure_recorded_counterexample:
  "''foo'' \<notin> dom (map_of (expandDependencies [(''etcd'', [])])) \<and>
   \<not> isl (operatorStage [(''etcd'', [])]
            [exampleOperator ''etcd'' ''True'' ''False'' ''False'',
             exampleOperator ''foo'' ''False'' ''False'' ''False''] [''foo''] newSuite) \<and>
   ''foo'' \<in> snd (projr (operatorStage [(''etcd'', [])]
            [exampleOperator ''etcd'' ''True'' ''False'' ''False'',
             exampleOperator ''foo'' ''False'' ''False'' ''False''] [''foo''] newSuite))"
  by code_simp

subsection \<open>Which dependency a skip names\<close>

lemma checkOperators_length:
  "length (TestCases (fst (checkOperators fd xs st))) = length (TestCases (fst st)) + length xs"
proof -
  obtain tcs where "TestCases (fst (checkOperators fd xs st)) = TestCases (fst st) @ tcs"
    "map Name tcs = map (\<lambda>i. ''operator conditions '' @ fst i) xs"
    using checkOperators_cases[of fd xs st] by blast
  moreover from this(2) have "length tcs = length xs" by (metis length_map)
  ultimately show ?thesis by simp
qed

lemma checkOperators_prefix:
  "take (length (TestCases (fst st)) + length xs) (TestCases (fst (checkOperators fd (xs @ ys) st)))
   = TestCases (fst (checkOperators fd xs st))"
proof -
  obtain tcs where t: "TestCases (fst (checkOperators fd ys (checkOperators fd xs st))) =
      TestCases (fst (checkOperators fd xs st)) @ tcs"
    using checkOperators_cases[of fd ys "checkOperators fd xs st"] by blast
  show ?thesis
    by (simp add: checkOperators_append t checkOperators_length)
qed

text \<open>
  C10. The expanded lists are sorted, and the loop breaks at the first failed entry: an
  operator skipped for a failed dependency names the least failed operator of its
  expanded list, in the order of Go's string comparison. Two runs on the same table and
  the same cluster can differ only in the order in which the leftover map is read; the
  test cases of the core operators (the first ones appended, one for each key of the
  expanded table) are the same in both.
\<close>

theorem skip_names_least_failed:
  "(set (lookupDeps (expandDependencies manualDeps) opName) \<inter> failedOperators \<noteq> {} \<longrightarrow>
      checkOperator (expandDependencies manualDeps) (opName, Some cop) (suite, failedOperators) =
        (tcAppend suite (''operator conditions '' @ opName) []
           (''Precondition operator '' @
            quote (Min (set (lookupDeps (expandDependencies manualDeps) opName) \<inter> failedOperators)) @
            '' failed, skipping''),
         failedOperators)) \<and>
   (operatorStage manualDeps items keyOrder1 suite = Inr (suite1, failed1) \<and>
    operatorStage manualDeps items keyOrder2 suite = Inr (suite2, failed2) \<longrightarrow>
      take (length (coreSet manualDeps)) (newCases suite suite1) =
      take (length (coreSet manualDeps)) (newCases suite suite2))"
proof (intro conjI impI)
  let ?fd = "expandDependencies manualDeps"
  assume ne: "set (lookupDeps ?fd opName) \<inter> failedOperators \<noteq> {}"
  have srt: "sorted (lookupDeps ?fd opName)"
    using sorted_lookup_expandDependencies by blast
  have msg: "preconditionSkipMsg (lookupDeps ?fd opName) failedOperators =
        ''Precondition operator '' @ quote (Min (set (lookupDeps ?fd opName) \<inter> failedOperators)) @
        '' failed, skipping''"
    by (rule preconditionSkipMsg_sorted[OF srt ne])
  have "preconditionSkipMsg (lookupDeps ?fd opName) (snd (suite, failedOperators)) \<noteq> []"
    using ne by (simp add: preconditionSkipMsg_empty_iff)
  from checkOperator_dep_failed[OF this, of cop] msg
  show "checkOperator ?fd (opName, Some cop) (suite, failedOperators) =
        (tcAppend suite (''operator conditions '' @ opName) []
           (''Precondition operator '' @
            quote (Min (set (lookupDeps ?fd opName) \<inter> failedOperators)) @ '' failed, skipping''),
         failedOperators)"
    by simp
next
  let ?fd = "expandDependencies manualDeps"
  let ?core = "sort (coreSet manualDeps)"
  let ?m = "buildOperatorsMap items"
  assume runs: "operatorStage manualDeps items keyOrder1 suite = Inr (suite1, failed1) \<and>
    operatorStage manualDeps items keyOrder2 suite = Inr (suite2, failed2)"
  obtain s1 where s1: "TopologicalSort ?core ?fd = Inr s1"
    and r1: "(suite1, failed1) = checkOperators ?fd (finalOperatorsOf s1 ?m keyOrder1) (suite, {})"
    using operatorStage_Inr[of manualDeps items keyOrder1 suite "(suite1, failed1)"] runs by blast
  obtain s2 where s2: "TopologicalSort ?core ?fd = Inr s2"
    and r2: "(suite2, failed2) = checkOperators ?fd (finalOperatorsOf s2 ?m keyOrder2) (suite, {})"
    using operatorStage_Inr[of manualDeps items keyOrder2 suite "(suite2, failed2)"] runs by blast
  have same: "s2 = s1" using s1 s2 by simp
  have dcore: "distinct ?core" by (simp add: distinct_coreSet)
  have d1: "distinct s1" and len: "length s1 = length (coreSet manualDeps)"
    using TopologicalSort_sound[OF dcore s1] s1
    by (auto simp: TopologicalSort_def Let_def split: if_splits)
  let ?corePart = "map (\<lambda>n. (n, ?m n)) s1"
  obtain e1 where f1: "finalOperatorsOf s1 ?m keyOrder1 = ?corePart @ e1"
    using finalOperators_split[OF d1, of ?m keyOrder1] by blast
  obtain e2 where f2: "finalOperatorsOf s1 ?m keyOrder2 = ?corePart @ e2"
    using finalOperators_split[OF d1, of ?m keyOrder2] by blast
  let ?n = "length (TestCases suite) + length ?corePart"
  have p1: "take ?n (TestCases suite1) = TestCases (fst (checkOperators ?fd ?corePart (suite, {})))"
    using checkOperators_prefix[of "(suite, {})" ?corePart ?fd e1] r1[symmetric] f1 by simp
  have p2: "take ?n (TestCases suite2) = TestCases (fst (checkOperators ?fd ?corePart (suite, {})))"
    using checkOperators_prefix[of "(suite, {})" ?corePart ?fd e2] r2[symmetric] f2 same by simp
  have "take (length s1) (drop (length (TestCases suite)) (TestCases suite1)) =
        take (length s1) (drop (length (TestCases suite)) (TestCases suite2))"
    using p1 p2 by (simp add: take_drop add.commute)
  then show "take (length (coreSet manualDeps)) (newCases suite suite1) =
      take (length (coreSet manualDeps)) (newCases suite suite2)"
    by (simp add: newCases_def len)
qed

theorem skip_names_least_failed_witness:
  "set (lookupDeps (expandDependencies forkABC) ''C'') \<inter> {''A'', ''B''} \<noteq> {} \<and>
   checkOperator (expandDependencies forkABC)
       (''C'', Some (exampleOperator ''C'' ''True'' ''False'' ''False'')) (newSuite, {''A'', ''B''}) =
     (tcAppend newSuite ''operator conditions C'' []
        ''Precondition operator \"A\" failed, skipping'', {''A'', ''B''}) \<and>
   take 3 (newCases newSuite (fst (projr (operatorStage forkABC
       [exampleOperator ''x'' ''True'' ''False'' ''False'',
        exampleOperator ''y'' ''True'' ''False'' ''False''] [''x'', ''y''] newSuite)))) =
   take 3 (newCases newSuite (fst (projr (operatorStage forkABC
       [exampleOperator ''x'' ''True'' ''False'' ''False'',
        exampleOperator ''y'' ''True'' ''False'' ''False''] [''y'', ''x''] newSuite))))"
proof -
  let ?fd = "expandDependencies forkABC"
  let ?items = "[exampleOperator ''x'' ''True'' ''False'' ''False'',
        exampleOperator ''y'' ''True'' ''False'' ''False'']"
  let ?r1 = "projr (operatorStage forkABC ?items [''x'', ''y''] newSuite)"
  let ?r2 = "projr (operatorStage forkABC ?items [''y'', ''x''] newSuite)"
  have l: "lookupDeps ?fd ''C'' = [''A'', ''B'']" by code_simp
  have ne: "set (lookupDeps ?fd ''C'') \<inter> {''A'', ''B''} \<noteq> {}" by (simp add: l)
  have mn: "Min (set (lookupDeps ?fd ''C'') \<inter> {''A'', ''B''}) = ''A''"
    unfolding l by code_simp
  have q: "quote ''A'' = ''\"A\"''" by code_simp
  have n: "length (coreSet forkABC) = 3" by code_simp
  have run1: "operatorStage forkABC ?items [''x'', ''y''] newSuite = Inr (fst ?r1, snd ?r1)"
    by code_simp
  have run2: "operatorStage forkABC ?items [''y'', ''x''] newSuite = Inr (fst ?r2, snd ?r2)"
    by code_simp
  note t = skip_names_least_failed[of forkABC "''C''" "{''A'', ''B''}"
      "exampleOperator ''C'' ''True'' ''False'' ''False''" newSuite ?items "[''x'', ''y'']"
      "fst ?r1" "snd ?r1" "[''y'', ''x'']" "fst ?r2" "snd ?r2"]
  from t ne have a: "checkOperator ?fd
       (''C'', Some (exampleOperator ''C'' ''True'' ''False'' ''False'')) (newSuite, {''A'', ''B''}) =
     (tcAppend newSuite (''operator conditions '' @ ''C'') []
        (''Precondition operator '' @
            quote (Min (set (lookupDeps ?fd ''C'') \<inter> {''A'', ''B''})) @ '' failed, skipping''),
      {''A'', ''B''})"
    by blast
  from t run1 run2 have b: "take (length (coreSet forkABC)) (newCases newSuite (fst ?r1)) =
      take (length (coreSet forkABC)) (newCases newSuite (fst ?r2))"
    by blast
  show ?thesis
    using ne a b unfolding mn q n by simp
qed

subsection \<open>The report file\<close>

text \<open>
  C7. The name of the report file. Both format strings bring an underscore, so the name
  has two of them between the prefix and the time stamp, at every instant; at
  2026-01-02 15:04:05 UTC it is \<^verbatim>\<open>cluster-health-check__20260102-150405.xml\<close>.
\<close>

theorem reportFileName_two_underscores:
  "reportFileName start = ''cluster-health-check__'' @ formatStamp start @ ''.xml'' \<and>
   reportFile ''junit'' \<lparr>year = 2026, month = 1, day = 2, hour = 15, minute = 4, second = 5\<rparr>
     = Some (''junit'', ''cluster-health-check__20260102-150405.xml'')"
proof
  show "reportFileName start = ''cluster-health-check__'' @ formatStamp start @ ''.xml''"
    by (simp add: reportFileName_def)
  show "reportFile ''junit'' \<lparr>year = 2026, month = 1, day = 2, hour = 15, minute = 4, second = 5\<rparr>
     = Some (''junit'', ''cluster-health-check__20260102-150405.xml'')"
    by code_simp
qed

subsection \<open>The machine check\<close>

text \<open>
  C9. When the machine list cannot be fetched, the machine check appends two test cases
  named "all machines should be in Running state": a Failed one carrying the fetch error,
  then a Skipped one carrying the no-machines message, and the node cases follow them.
\<close>

theorem machine_fetch_error_two_cases:
  "\<exists>rest. TestCases (checkMachineNodeConsistency (Inl err) nodeList suite) =
     TestCases suite @
     [\<lparr>Name = ''all machines should be in Running state'',
       FailureOutput = Some (''Could not list machines: '' @ err @
                             ''. The Machine API might not be available.''),
       SkipMessage = None\<rparr>,
      \<lparr>Name = ''all machines should be in Running state'',
       FailureOutput = None,
       SkipMessage = Some ''No Machines found or could not retrieve list. Skipping Machine check.''\<rparr>]
     @ rest"
  by (cases nodeList)
     (simp_all add: checkMachineNodeConsistency_def machinesCase_def nodesCases_def
        TestCases_tcAppend Let_def)

end
